theory Spec2Isabelle
  imports Complex_Main "HOL-Library.Word"
begin

unbundle bit_operations_syntax

text \<open>
  A shallow embedding of the low-latency execution engine: the wire codec of
  \<open>MessageParser\<close> (\<open>parse\<close>, \<open>serialize\<close> and the validation helpers), the latency ring it
  feeds, the single-producer single-consumer queue \<open>SPSCQueue\<close>, and the report of
  \<open>LatencyTracker::analyzeLatencies\<close>. The definitions come first, each next to the C++ it
  stands for; the properties follow, one section for each.
\<close>

section \<open>Data model\<close>

type_synonym byte = "8 word"

text \<open>
  A C++ \<open>double\<close> is carried as its IEEE-754 binary64 bit pattern. The codec only ever
  moves the pattern (\<open>memcpy\<close> in \<open>doubleToUint64\<close> and \<open>uint64ToDouble\<close>) and
  compares it with \<open>0.0\<close>, so no arithmetic on the value is needed there. The latency
  analysis, which computes with doubles, has its own model of their arithmetic below.
\<close>

type_synonym double = "64 word"

text \<open>
  \<open>struct Order\<close> (Order.h). \<open>Side\<close> is an enum over \<open>int8_t\<close> and \<open>OrderType\<close> an enum
  over \<open>uint8_t\<close>; an enum with a fixed underlying type holds every value of that type, so
  both tags are kept as the byte they occupy. \<open>symbol\<close> is \<open>char[8]\<close>: a list of bytes
  whose length is 8. The trailing padding carries no information and is left out.
\<close>

record Order =
  order_id :: "64 word"
  timestamp_ns :: "64 word"
  symbol :: "byte list"
  price :: double
  quantity :: "32 word"
  side :: byte
  type :: byte

text \<open>\<open>struct WireOrder\<close> (WireOrder.h), packed to 38 bytes.\<close>

record WireOrder =
  w_order_id :: "64 word"
  w_timestamp_ns :: "64 word"
  w_price :: "64 word"
  w_quantity :: "32 word"
  w_symbol :: "byte list"
  w_side :: byte
  w_type :: byte

definition Side_Buy :: byte where "Side_Buy = 1"
definition Side_Sell :: byte where "Side_Sell = - 1"
definition OrderType_Limit :: byte where "OrderType_Limit = 0"
definition OrderType_Market :: byte where "OrderType_Market = 1"
definition OrderType_Stop :: byte where "OrderType_Stop = 2"

definition sizeof_WireOrder :: nat where
  "sizeof_WireOrder = 38"

section \<open>Objects in memory\<close>

text \<open>
  The host is x86 (the parser reads the time stamp counter with \<open>__rdtsc\<close>), so an
  integer object lies in memory least significant byte first. \<open>store_le n v\<close> is the
  \<open>n\<close> bytes that \<open>memcpy\<close> reads out of an integer object holding \<open>v\<close>, and
  \<open>load_le bs\<close> the value of the integer object that \<open>memcpy\<close> filled with \<open>bs\<close>.
\<close>

definition store_le :: "nat \<Rightarrow> 'a::len word \<Rightarrow> byte list" where
  "store_le n v = map (\<lambda>i. ucast (drop_bit (8 * i) v)) [0..<n]"

definition load_le :: "byte list \<Rightarrow> 'a::len word" where
  "load_le bs = foldr (\<lambda>b acc. ucast b OR push_bit 8 acc) bs 0"

text \<open>
  \<open>htonll\<close>, \<open>ntohll\<close>, \<open>htonl\<close> and \<open>ntohl\<close> on a little-endian host: the result is the
  integer whose bytes in memory are those of the argument in the opposite order.
\<close>

definition hton64 :: "64 word \<Rightarrow> 64 word" where
  "hton64 v = load_le (rev (store_le 8 v))"

definition ntoh64 :: "64 word \<Rightarrow> 64 word" where
  "ntoh64 v = load_le (rev (store_le 8 v))"

definition htonl :: "32 word \<Rightarrow> 32 word" where
  "htonl v = load_le (rev (store_le 4 v))"

definition ntohl :: "32 word \<Rightarrow> 32 word" where
  "ntohl v = load_le (rev (store_le 4 v))"

definition doubleToUint64 :: "double \<Rightarrow> 64 word" where
  "doubleToUint64 v = v"

definition uint64ToDouble :: "64 word \<Rightarrow> double" where
  "uint64ToDouble v = v"

text \<open>
  \<open>memcpy(&w, data, sizeof(WireOrder))\<close> and \<open>memcpy(buffer.data(), &w, sizeof(WireOrder))\<close>:
  the packed layout puts the fields at offsets 0, 8, 16, 24, 28, 36 and 37.
\<close>

definition bytes_to_WireOrder :: "byte list \<Rightarrow> WireOrder" where
  "bytes_to_WireOrder data =
     \<lparr> w_order_id = load_le (take 8 data),
       w_timestamp_ns = load_le (take 8 (drop 8 data)),
       w_price = load_le (take 8 (drop 16 data)),
       w_quantity = load_le (take 4 (drop 24 data)),
       w_symbol = take 8 (drop 28 data),
       w_side = data ! 36,
       w_type = data ! 37 \<rparr>"

definition WireOrder_to_bytes :: "WireOrder \<Rightarrow> byte list" where
  "WireOrder_to_bytes w =
     store_le 8 (w_order_id w) @ store_le 8 (w_timestamp_ns w) @ store_le 8 (w_price w)
       @ store_le 4 (w_quantity w) @ take 8 (w_symbol w) @ [w_side w] @ [w_type w]"

section \<open>Latency ring\<close>

definition MAX_SAMPLES :: nat where
  "MAX_SAMPLES = 1000000"

text \<open>
  The file-scope array \<open>timestamps_RDTSC\<close> and the index \<open>s_idx\<close> of main.cpp. Both have
  static storage, so they start out zeroed.
\<close>

record LatencyState =
  timestamps_RDTSC :: "64 word list"
  s_idx :: "64 word"

definition initial_LatencyState :: LatencyState where
  "initial_LatencyState = \<lparr> timestamps_RDTSC = replicate MAX_SAMPLES 0, s_idx = 0 \<rparr>"

definition recordLatency :: "LatencyState \<Rightarrow> 64 word \<Rightarrow> LatencyState" where
  "recordLatency st latency =
     \<lparr> timestamps_RDTSC = (timestamps_RDTSC st)[unat (s_idx st) mod MAX_SAMPLES := latency],
       s_idx = s_idx st + 1 \<rparr>"

text \<open>Recording the samples of a list one after the other, first to last.\<close>

definition recordLatencies :: "LatencyState \<Rightarrow> 64 word list \<Rightarrow> LatencyState" where
  "recordLatencies st xs = foldl recordLatency st xs"

section \<open>Validation\<close>

text \<open>\<open>std::isalnum\<close> in the C locale: the ASCII digits and letters.\<close>

definition isalnum :: "byte \<Rightarrow> bool" where
  "isalnum c \<longleftrightarrow> (0x30 \<le> c \<and> c \<le> 0x39) \<or> (0x41 \<le> c \<and> c \<le> 0x5A) \<or> (0x61 \<le> c \<and> c \<le> 0x7A)"

text \<open>The loop of \<open>validateSymbol\<close> over the bytes still to be visited.\<close>

fun validateSymbol_loop :: "byte list \<Rightarrow> bool" where
  "validateSymbol_loop [] = True"
| "validateSymbol_loop (c # cs) =
     (if c = 0 then True else if \<not> isalnum c then False else validateSymbol_loop cs)"

definition validateSymbol :: "byte list \<Rightarrow> bool" where
  "validateSymbol s = validateSymbol_loop (take 8 s)"

text \<open>
  The fields of a binary64 pattern, and the comparison \<open>price > 0.0\<close>: it holds exactly
  when the value is not a NaN, is not a zero and has a clear sign bit (subnormals and
  \<open>+\<infinity>\<close> included).
\<close>

definition double_sign :: "double \<Rightarrow> bool" where
  "double_sign d = bit d 63"

definition double_exponent :: "double \<Rightarrow> 64 word" where
  "double_exponent d = take_bit 11 (drop_bit 52 d)"

definition double_fraction :: "double \<Rightarrow> 64 word" where
  "double_fraction d = take_bit 52 d"

definition double_isnan :: "double \<Rightarrow> bool" where
  "double_isnan d \<longleftrightarrow> double_exponent d = 0x7FF \<and> double_fraction d \<noteq> 0"

definition double_iszero :: "double \<Rightarrow> bool" where
  "double_iszero d \<longleftrightarrow> double_exponent d = 0 \<and> double_fraction d = 0"

definition validatePrice :: "double \<Rightarrow> bool" where
  "validatePrice p \<longleftrightarrow> \<not> double_isnan p \<and> \<not> double_iszero p \<and> \<not> double_sign p"

definition validateQuantity :: "32 word \<Rightarrow> bool" where
  "validateQuantity qty \<longleftrightarrow> qty > 0"

section \<open>The codec\<close>

text \<open>
  \<open>MessageParser::parse(data, size)\<close>. The buffer is the list \<open>data\<close> and \<open>size\<close> its
  length. The two readings of the time stamp counter are inputs, and the latency ring is
  passed in and returned. \<open>None\<close> is \<open>std::nullopt\<close>, the only failure value the function
  has. \<open>checkHTONLL\<close> only prints, and its result is ignored.
\<close>

definition decode_fields :: "WireOrder \<Rightarrow> Order" where
  "decode_fields w =
     \<lparr> order_id = ntoh64 (w_order_id w),
       timestamp_ns = ntoh64 (w_timestamp_ns w),
       symbol = take 8 (w_symbol w),
       price = uint64ToDouble (ntoh64 (w_price w)),
       quantity = ntohl (w_quantity w),
       side = w_side w,
       type = w_type w \<rparr>"

definition parse :: "64 word \<Rightarrow> 64 word \<Rightarrow> byte list \<Rightarrow> LatencyState \<Rightarrow> Order option \<times> LatencyState" where
  "parse tsc_start tsc_end data st =
     (if length data < sizeof_WireOrder then (None, st)
      else
        let w = bytes_to_WireOrder (take sizeof_WireOrder data);
            ord = decode_fields w
        in if \<not> validateSymbol (symbol ord) \<or> \<not> validatePrice (price ord)
                \<or> \<not> validateQuantity (quantity ord)
           then (None, st)
           else (Some ord, recordLatency st (tsc_end - tsc_start)))"

definition encode_fields :: "Order \<Rightarrow> WireOrder" where
  "encode_fields ord =
     \<lparr> w_order_id = hton64 (order_id ord),
       w_timestamp_ns = hton64 (timestamp_ns ord),
       w_price = hton64 (doubleToUint64 (price ord)),
       w_quantity = htonl (quantity ord),
       w_symbol = take 8 (symbol ord),
       w_side = side ord,
       w_type = type ord \<rparr>"

definition serialize :: "Order \<Rightarrow> byte list" where
  "serialize ord = WireOrder_to_bytes (encode_fields ord)"



text \<open>The record that \<open>parse\<close> builds from a buffer before it validates it.\<close>

definition decoded :: "byte list \<Rightarrow> Order" where
  "decoded data = decode_fields (bytes_to_WireOrder (take sizeof_WireOrder data))"

section \<open>The single-producer single-consumer queue\<close>

text \<open>
  \<open>SPSCQueue<T>\<close> (SPSCQueue.h, SPSCQueue.tpp), one operation at a time. \<open>size_t\<close> is a
  64-bit word. A slot of the raw buffer either holds a constructed object (\<open>Some\<close>) or
  none (\<open>None\<close>): placement \<open>new\<close> fills it and the destructor call in \<open>pop\<close> empties it.
  The members \<open>capacity_\<close>, \<open>buffer_\<close>, \<open>head_\<close> and \<open>tail_\<close> lose their trailing underscore.
\<close>

text \<open>
  What the constructor throws: \<open>std::invalid_argument\<close> from its guard, and
  \<open>std::bad_alloc\<close> from \<open>operator new[]\<close>.
\<close>

datatype queue_error = InvalidArgument | BadAlloc

text \<open>
  \<open>buffer\<close> lists the slots \<open>buffer_[0]\<close> to \<open>buffer_[capacity_ - 1]\<close> that the cursors
  address. \<open>storage\<close> is the size in bytes of the block that \<open>operator new[]\<close> returned for
  them.
\<close>

record 'a SPSCQueue =
  capacity :: "64 word"
  buffer :: "'a option list"
  storage :: "64 word"
  head :: "64 word"
  tail :: "64 word"

text \<open>
  The constructor. \<open>sizeof_T\<close> is \<open>sizeof(T)\<close>, and \<open>operator_new n\<close> tells whether
  \<open>operator new[](n)\<close> returns a block of \<open>n\<close> bytes or throws \<open>std::bad_alloc\<close>. The size
  \<open>capacity_ * sizeof(T)\<close> is computed in \<open>size_t\<close> and wraps around; the block is then
  smaller than the slots need.
\<close>

definition SPSCQueue_init ::
    "64 word \<Rightarrow> (64 word \<Rightarrow> bool) \<Rightarrow> 64 word \<Rightarrow> queue_error + 'a SPSCQueue" where
  "SPSCQueue_init sizeof_T operator_new cap =
     (if cap < 2 \<or> cap AND (cap - 1) \<noteq> 0 then Inl InvalidArgument
      else if \<not> operator_new (cap * sizeof_T) then Inl BadAlloc
      else Inr \<lparr> capacity = cap, buffer = replicate (unat cap) None,
                 storage = cap * sizeof_T, head = 0, tail = 0 \<rparr>)"

text \<open>\<open>push\<close> returns its \<open>bool\<close> and the queue as it leaves it.\<close>

definition push :: "'a SPSCQueue \<Rightarrow> 'a \<Rightarrow> bool \<times> 'a SPSCQueue" where
  "push q item =
     (let h = head q;
          next = (h + 1) AND (capacity q - 1)
      in if next = tail q then (False, q)
         else (True, q\<lparr> buffer := (buffer q)[unat h := Some item], head := next \<rparr>))"

text \<open>
  \<open>pop\<close> returns its \<open>bool\<close> together with what it assigns to \<open>item\<close> (the content of the
  slot it moves from; nothing when it returns \<open>false\<close>), and the queue as it leaves it.
\<close>

definition pop :: "'a SPSCQueue \<Rightarrow> (bool \<times> 'a option) \<times> 'a SPSCQueue" where
  "pop q =
     (let t = tail q
      in if t = head q then ((False, None), q)
         else ((True, buffer q ! unat t),
               q\<lparr> buffer := (buffer q)[unat t := None],
                  tail := (t + 1) AND (capacity q - 1) \<rparr>))"

definition queue_full :: "'a SPSCQueue \<Rightarrow> bool" where
  "queue_full q \<longleftrightarrow> (head q + 1) AND (capacity q - 1) = tail q"

definition queue_empty :: "'a SPSCQueue \<Rightarrow> bool" where
  "queue_empty q \<longleftrightarrow> head q = tail q"

definition queue_size :: "'a SPSCQueue \<Rightarrow> 64 word" where
  "queue_size q = (head q - tail q) AND (capacity q - 1)"

text \<open>The number of slots that hold a constructed object.\<close>

definition live_count :: "'a SPSCQueue \<Rightarrow> nat" where
  "live_count q = length (filter (\<lambda>s. s \<noteq> None) (buffer q))"

text \<open>A sequence of calls, run from left to right, with the result of each call.\<close>

datatype 'a op = Push 'a | Pop

datatype 'a outcome = PushResult bool | PopResult bool "'a option"

fun step :: "'a op \<Rightarrow> 'a SPSCQueue \<Rightarrow> 'a outcome \<times> 'a SPSCQueue" where
  "step (Push x) q = (case push q x of (ok, q') \<Rightarrow> (PushResult ok, q'))"
| "step Pop q = (case pop q of ((ok, item), q') \<Rightarrow> (PopResult ok item, q'))"

fun run :: "'a op list \<Rightarrow> 'a SPSCQueue \<Rightarrow> 'a outcome list \<times> 'a SPSCQueue" where
  "run [] q = ([], q)"
| "run (x # xs) q =
     (case step x q of (r, q') \<Rightarrow> (case run xs q' of (rs, q'') \<Rightarrow> (r # rs, q'')))"

text \<open>A capacity that is a power of two and at least 2.\<close>

definition power_of_two_ge2 :: "64 word \<Rightarrow> bool" where
  "power_of_two_ge2 c \<longleftrightarrow> (\<exists>k. 1 \<le> k \<and> unat c = 2 ^ k)"

text \<open>
  The invariant of a queue between calls: the live slots are the \<open>live_count\<close> slots from
  \<open>tail\<close> on, cyclically, and \<open>head\<close> is the slot after them.
\<close>

definition queue_inv :: "'a SPSCQueue \<Rightarrow> bool" where
  "queue_inv q \<longleftrightarrow>
     power_of_two_ge2 (capacity q)
     \<and> length (buffer q) = unat (capacity q)
     \<and> unat (tail q) < unat (capacity q)
     \<and> live_count q < unat (capacity q)
     \<and> unat (head q) = (unat (tail q) + live_count q) mod unat (capacity q)
     \<and> (\<forall>j < unat (capacity q).
           (buffer q ! ((unat (tail q) + j) mod unat (capacity q)) \<noteq> None) = (j < live_count q))"

section \<open>Double precision arithmetic\<close>

text \<open>
  In \<open>analyzeLatencies\<close> a \<open>double\<close> takes part in arithmetic. Every value there is finite,
  non-negative and far from the overflow and underflow thresholds, so a double is modelled
  by the rational number it denotes, and every operation rounds its exact result to the
  nearest number with 53 significant bits, a tie going to the even significand (the
  default rounding of IEEE-754 binary64). A decimal literal such as \<open>0.99\<close> is the double
  nearest to it.
\<close>

text \<open>The number of binary digits of a natural number.\<close>

fun bitlength :: "nat \<Rightarrow> nat" where
  "bitlength n = (if n = 0 then 0 else Suc (bitlength (n div 2)))"

declare bitlength.simps [simp del]

text \<open>
  The exponent \<open>e\<close> with \<open>2 ^ e \<le> x < 2 ^ (e + 1)\<close> of a positive number \<open>x\<close>.
\<close>

definition binade :: "rat \<Rightarrow> int" where
  "binade x = (if 1 \<le> x then int (bitlength (nat \<lfloor>x\<rfloor>)) - 1
               else - int (bitlength (nat (\<lceil>1 / x\<rceil> - 1))))"

text \<open>The nearest integer, a tie going to the even one.\<close>

definition round_half_even :: "rat \<Rightarrow> int" where
  "round_half_even q =
     (let f = \<lfloor>q\<rfloor>; d = q - of_int f
      in if d < 1 / 2 then f else if 1 / 2 < d then f + 1 else if even f then f else f + 1)"

text \<open>
  The nearest double: the significand is an integer of 53 bits, so a number in the binade
  \<open>e\<close> is rounded to a multiple of \<open>2 ^ (e - 52)\<close>.
\<close>

definition round_double :: "rat \<Rightarrow> rat" where
  "round_double x =
     (if x = 0 then 0
      else let s = binade x - 52
           in of_int (round_half_even (x / 2 powi s)) * 2 powi s)"

text \<open>
  Conversion of a \<open>size_t\<close> to \<open>double\<close>, the three operations the analysis uses, and
  \<open>static_cast<size_t>\<close> of a non-negative double, which drops the fraction.
\<close>

definition double_of_nat :: "nat \<Rightarrow> rat" where
  "double_of_nat n = round_double (of_nat n)"

definition double_add :: "rat \<Rightarrow> rat \<Rightarrow> rat" where
  "double_add a b = round_double (a + b)"

definition double_mul :: "rat \<Rightarrow> rat \<Rightarrow> rat" where
  "double_mul a b = round_double (a * b)"

definition double_div :: "rat \<Rightarrow> rat \<Rightarrow> rat" where
  "double_div a b = round_double (a / b)"

definition double_to_size_t :: "rat \<Rightarrow> nat" where
  "double_to_size_t d = nat \<lfloor>d\<rfloor>"

section \<open>Latency analysis\<close>

text \<open>Conversion of a \<open>uint64_t\<close> sample to \<open>double\<close>.\<close>

definition double_of_uint64 :: "64 word \<Rightarrow> rat" where
  "double_of_uint64 w = round_double (of_nat (unat w))"

text \<open>
  The values \<open>*std::min_element\<close> and \<open>*std::max_element\<close> yield on a non-empty vector, and
  \<open>std::accumulate\<close> with a \<open>double\<close> accumulator: each sample is converted and added, and
  each addition rounds.
\<close>

definition min_element :: "64 word list \<Rightarrow> 64 word" where
  "min_element xs = fold min (tl xs) (hd xs)"

definition max_element :: "64 word list \<Rightarrow> 64 word" where
  "max_element xs = fold max (tl xs) (hd xs)"

definition accumulate :: "64 word list \<Rightarrow> rat \<Rightarrow> rat" where
  "accumulate xs init = fold (\<lambda>x acc. double_add acc (double_of_uint64 x)) xs init"

text \<open>
  \<open>analyzeLatencies\<close> prints its report. The model returns what is printed: the line
  \<open>No latency data recorded.\<close> (\<open>NoData\<close>), or the seven numbers, the average as the double
  that is handed to the stream. \<open>timestampArr\<close> is an array of \<open>MAX_SAMPLES\<close> elements; a
  \<open>count\<close> beyond that makes the vector constructor read past its end, which is undefined
  behaviour and here the outcome \<open>ReadPastEnd\<close>. \<open>std::sort\<close> is \<open>sort\<close>.
\<close>

datatype analysis_error = ReadPastEnd

record statistics =
  stat_count :: nat
  stat_min :: "64 word"
  stat_median :: "64 word"
  stat_avg :: rat
  stat_p99 :: "64 word"
  stat_p999 :: "64 word"
  stat_max :: "64 word"

datatype report = NoData | Statistics statistics

definition analyzeLatencies :: "64 word list \<Rightarrow> 64 word \<Rightarrow> analysis_error + report" where
  "analyzeLatencies timestampArr count =
     (if count = 0 then Inr NoData
      else if MAX_SAMPLES < unat count then Inl ReadPastEnd
      else
        let latencies = take (unat count) timestampArr;
            mn = min_element latencies;
            mx = max_element latencies;
            avg = double_div (accumulate latencies 0) (double_of_nat (length latencies));
            sorted = sort latencies;
            median = sorted ! (length sorted div 2);
            p99 = sorted ! double_to_size_t
                    (double_mul (double_of_nat (length sorted)) (round_double (99 / 100)));
            p999 = sorted ! double_to_size_t
                    (double_mul (double_of_nat (length sorted)) (round_double (999 / 1000)))
        in Inr (Statistics \<lparr> stat_count = length latencies, stat_min = mn, stat_median = median,
                  stat_avg = avg, stat_p99 = p99, stat_p999 = p999, stat_max = mx \<rparr>))"

text \<open>
  The rank the specification gives for the quantile \<open>num / den\<close> of \<open>n\<close> samples:
  \<open>floor(quantile \<times> n)\<close>, computed exactly.
\<close>

definition quantile_rank :: "nat \<Rightarrow> nat \<Rightarrow> nat \<Rightarrow> nat" where
  "quantile_rank num den n = nat \<lfloor>rat_of_nat num / rat_of_nat den * rat_of_nat n\<rfloor>"

section \<open>Sample data\<close>

text \<open>
  The order the benchmark driver builds first, with the price 50.25 as its binary64
  pattern, and two buffers that differ in one symbol byte only: both carry the price
  \<open>0.0\<close>, and the first has \<open>!\<close> as the second symbol byte.
\<close>

definition sample_order :: Order where
  "sample_order =
     \<lparr> order_id = 1, timestamp_ns = 1000, symbol = [0x41, 0x41, 0x50, 0x4C, 0, 0, 0, 0],
       price = 0x4049200000000000, quantity = 10, side = Side_Buy, type = OrderType_Market \<rparr>"

definition sample_bytes :: "byte list" where
  "sample_bytes =
     [0, 0, 0, 0, 0, 0, 0, 1,  0, 0, 0, 0, 0, 0, 3, 232,  64, 73, 32, 0, 0, 0, 0, 0,
      0, 0, 0, 10,  65, 65, 80, 76, 0, 0, 0, 0,  1, 1]"


definition bad_price_bytes :: "byte list" where
  "bad_price_bytes =
     [0, 0, 0, 0, 0, 0, 0, 1,  0, 0, 0, 0, 0, 0, 3, 232,  0, 0, 0, 0, 0, 0, 0, 0,
      0, 0, 0, 10,  65, 65, 80, 76, 0, 0, 0, 0,  1, 1]"

text \<open>
  A short buffer: the first 37 bytes of \<open>sample_bytes\<close>.
\<close>

definition short_bytes :: "byte list" where
  "short_bytes =
     [0, 0, 0, 0, 0, 0, 0, 1,  0, 0, 0, 0, 0, 0, 3, 232,  64, 73, 32, 0, 0, 0, 0, 0,
      0, 0, 0, 10,  65, 65, 80, 76, 0, 0, 0, 0,  1]"

text \<open>An allocator that returns any block of up to 4 GiB and refuses a larger one.\<close>

definition heap_4GiB :: "64 word \<Rightarrow> bool" where
  "heap_4GiB n \<longleftrightarrow> n \<le> 0x100000000"

text \<open>Samples told apart by their value: sample number \<open>i\<close> has the value \<open>i\<close>.\<close>

definition numbered_samples :: "nat \<Rightarrow> 64 word list" where
  "numbered_samples n = map of_nat [0..<n]"

section \<open>Bytes and integers\<close>

lemma length_store_le: "length (store_le n v) = n"
  by (simp add: store_le_def)

lemma bit_nth_store_le:
  "i < n \<Longrightarrow> bit (store_le n v ! i) j \<longleftrightarrow> j < 8 \<and> bit v (8 * i + j)"
  by (auto simp: store_le_def bit_simps)

lemma bit_load_le:
  "bit (load_le bs :: 'a::len word) n \<longleftrightarrow>
     n < LENGTH('a) \<and> n div 8 < length bs \<and> bit (bs ! (n div 8)) (n mod 8)"
proof (induction bs arbitrary: n)
  case Nil
  show ?case by (simp add: load_le_def)
next
  case (Cons b bs)
  have unfold: "(load_le (b # bs) :: 'a word) = ucast b OR push_bit 8 (load_le bs)"
    by (simp add: load_le_def)
  show ?case
  proof (cases "n < 8")
    case True
    then show ?thesis
      by (auto simp: unfold bit_simps dest: bit_imp_le_length)
  next
    case False
    then have "n div 8 = Suc ((n - 8) div 8)" "n mod 8 = (n - 8) mod 8"
      by (simp_all add: le_div_geq le_mod_geq)
    with False show ?thesis
      using bit_imp_le_length [of b n]
      by (auto simp: unfold bit_simps Cons.IH)
  qed
qed

lemma load_store_le:
  fixes v :: "'a::len word"
  assumes "LENGTH('a) \<le> 8 * k"
  shows "load_le (store_le k v) = v"
proof (rule bit_word_eqI)
  fix n assume n: "n < LENGTH('a)"
  with assms have "n div 8 < k" by (simp add: less_mult_imp_div_less mult.commute)
  with n show "bit (load_le (store_le k v) :: 'a word) n \<longleftrightarrow> bit v n"
    by (simp add: bit_load_le length_store_le bit_nth_store_le)
qed

lemma store_load_le:
  assumes "8 * length bs \<le> LENGTH('a::len)"
  shows "store_le (length bs) (load_le bs :: 'a word) = bs"
proof (rule nth_equalityI)
  show "length (store_le (length bs) (load_le bs :: 'a word)) = length bs"
    by (simp add: length_store_le)
next
  fix i assume "i < length (store_le (length bs) (load_le bs :: 'a word))"
  then have i: "i < length bs" by (simp add: length_store_le)
  show "store_le (length bs) (load_le bs :: 'a word) ! i = bs ! i"
  proof (rule bit_word_eqI)
    fix j assume j: "j < LENGTH(8)"
    then have "8 * i + j < 8 * length bs" using i by simp
    with assms have "8 * i + j < LENGTH('a)" by simp
    moreover have "(8 * i + j) div 8 = i" "(8 * i + j) mod 8 = j" using j by simp_all
    ultimately show "bit (store_le (length bs) (load_le bs :: 'a word) ! i) j \<longleftrightarrow> bit (bs ! i) j"
      using i j by (simp add: bit_nth_store_le bit_load_le)
  qed
qed

lemma ntoh64_hton64: "ntoh64 (hton64 v) = v"
proof -
  have "store_le 8 (load_le (rev (store_le 8 v)) :: 64 word) = rev (store_le 8 v)"
    using store_load_le [of "rev (store_le 8 v)", where 'a = 64]
    by (simp add: length_store_le)
  then show ?thesis
    by (simp add: ntoh64_def hton64_def load_store_le)
qed

lemma ntohl_htonl: "ntohl (htonl v) = v"
proof -
  have "store_le 4 (load_le (rev (store_le 4 v)) :: 32 word) = rev (store_le 4 v)"
    using store_load_le [of "rev (store_le 4 v)", where 'a = 32]
    by (simp add: length_store_le)
  then show ?thesis
    by (simp add: ntohl_def htonl_def load_store_le)
qed

text \<open>\<open>encode\<close> puts an integer on the wire most significant byte first.\<close>

lemma store_le_hton64: "store_le 8 (hton64 v) = rev (store_le 8 v)"
  using store_load_le [of "rev (store_le 8 v)", where 'a = 64]
  by (simp add: hton64_def length_store_le)

lemma store_le_htonl: "store_le 4 (htonl v) = rev (store_le 4 v)"
  using store_load_le [of "rev (store_le 4 v)", where 'a = 32]
  by (simp add: htonl_def length_store_le)

lemma length_WireOrder_to_bytes:
  "length (w_symbol w) = 8 \<Longrightarrow> length (WireOrder_to_bytes w) = 38"
  by (simp add: WireOrder_to_bytes_def length_store_le)

lemma bytes_to_WireOrder_to_bytes:
  assumes "length (w_symbol w) = 8"
  shows "bytes_to_WireOrder (take 38 (WireOrder_to_bytes w)) = w"
proof -
  have "take 38 (WireOrder_to_bytes w) = WireOrder_to_bytes w"
    using length_WireOrder_to_bytes [OF assms] by simp
  moreover have "bytes_to_WireOrder (WireOrder_to_bytes w) = w"
    using assms
    by (simp add: bytes_to_WireOrder_def WireOrder_to_bytes_def length_store_le
        load_store_le nth_append)
  ultimately show ?thesis by simp
qed

lemma decode_encode_fields:
  "length (symbol ord) = 8 \<Longrightarrow> decode_fields (encode_fields ord) = ord"
  by (simp add: decode_fields_def encode_fields_def ntoh64_hton64 ntohl_htonl
      doubleToUint64_def uint64ToDouble_def)

lemma parse_decoded:
  "sizeof_WireOrder \<le> length data \<Longrightarrow>
   parse tsc_start tsc_end data st =
     (if validateSymbol (symbol (decoded data)) \<and> validatePrice (price (decoded data))
         \<and> validateQuantity (quantity (decoded data))
      then (Some (decoded data), recordLatency st (tsc_end - tsc_start))
      else (None, st))"
  by (auto simp: parse_def decoded_def Let_def)

lemmas validate_eval =
  validateSymbol_def isalnum_def validatePrice_def double_isnan_def double_iszero_def
  double_sign_def double_exponent_def double_fraction_def validateQuantity_def

lemmas codec_eval =
  parse_def decoded_def sizeof_WireOrder_def bytes_to_WireOrder_def decode_fields_def
  ntoh64_def ntohl_def hton64_def htonl_def load_le_def store_le_def upt_rec
  uint64ToDouble_def doubleToUint64_def validate_eval serialize_def encode_fields_def
  WireOrder_to_bytes_def Side_Buy_def OrderType_Market_def

section \<open>Decoding short buffers\<close>

text \<open>
  C4 as stated does not hold: \<open>parse\<close> has one failure value and no kinds of failure. A
  buffer of 37 bytes gets the very outcome of a buffer of 38 bytes whose only defect is
  its price, so what is reported for a short buffer is not a failure of its own kind, told
  apart from the others.
\<close>

theorem parse_truncated_not_discriminated:
  "length short_bytes < 38
   \<and> 38 \<le> length bad_price_bytes
   \<and> validateSymbol (symbol (decoded bad_price_bytes))
   \<and> \<not> validatePrice (price (decoded bad_price_bytes))
   \<and> validateQuantity (quantity (decoded bad_price_bytes))
   \<and> parse 5 9 short_bytes initial_LatencyState
       = parse 5 9 bad_price_bytes initial_LatencyState"
proof -
  have "parse 5 9 short_bytes initial_LatencyState = (None, initial_LatencyState)"
    by (simp add: short_bytes_def parse_def sizeof_WireOrder_def)
  moreover have "parse 5 9 bad_price_bytes initial_LatencyState = (None, initial_LatencyState)"
    by (simp add: bad_price_bytes_def codec_eval)
  moreover have "length short_bytes < 38" "38 \<le> length bad_price_bytes"
    by (simp_all add: short_bytes_def bad_price_bytes_def)
  moreover have "validateSymbol (symbol (decoded bad_price_bytes))"
    "\<not> validatePrice (price (decoded bad_price_bytes))"
    "validateQuantity (quantity (decoded bad_price_bytes))"
    by (simp_all add: bad_price_bytes_def codec_eval)
  ultimately show ?thesis by simp
qed

text \<open>
  C4, amended. A buffer shorter than 38 bytes is rejected whatever it contains: \<open>parse\<close>
  returns its single failure value, the one it has for every rejected buffer, without a
  record, and leaves the latency ring as it was.
\<close>

theorem parse_truncated:
  "length data < 38 \<Longrightarrow> parse tsc_start tsc_end data st = (None, st)"
  by (simp add: parse_def sizeof_WireOrder_def)

theorem parse_truncated_witness:
  "length [0x41, 0x42, 0x43 :: byte] < 38
   \<and> parse 0 0 [0x41, 0x42, 0x43] initial_LatencyState = (None, initial_LatencyState)"
  using parse_truncated [of "[0x41, 0x42, 0x43]" 0 0 initial_LatencyState] by simp

section \<open>Round trip\<close>

text \<open>
  C1. Take any record whose symbol (the 8 bytes of \<open>char symbol[8]\<close>) is alphanumeric up
  to its first null byte, whose price compares greater than \<open>0.0\<close> and whose quantity is
  positive. \<open>serialize\<close> gives a buffer of 38 bytes, and \<open>parse\<close> on that buffer succeeds
  and returns the record itself: the same order id, time stamp, symbol bytes, price bit
  pattern, quantity, side tag and type tag. It also records one latency sample.
\<close>

theorem parse_serialize_roundtrip:
  assumes "length (symbol x) = 8"
    and "validateSymbol (symbol x)"
    and "validatePrice (price x)"
    and "quantity x > 0"
  shows "length (serialize x) = 38
         \<and> parse tsc_start tsc_end (serialize x) st
             = (Some x, recordLatency st (tsc_end - tsc_start))"
proof -
  have sym: "length (w_symbol (encode_fields x)) = 8"
    using assms(1) by (simp add: encode_fields_def)
  have len: "length (serialize x) = 38"
    using sym by (simp add: serialize_def length_WireOrder_to_bytes)
  have "decoded (serialize x) = decode_fields (encode_fields x)"
    using sym
    by (simp add: decoded_def serialize_def sizeof_WireOrder_def bytes_to_WireOrder_to_bytes)
  then have "decoded (serialize x) = x"
    using assms(1) by (simp add: decode_encode_fields)
  with len assms show ?thesis
    by (simp add: parse_decoded sizeof_WireOrder_def validateQuantity_def)
qed

theorem parse_serialize_roundtrip_witness:
  "length (symbol sample_order) = 8
   \<and> validateSymbol (symbol sample_order)
   \<and> validatePrice (price sample_order)
   \<and> quantity sample_order > 0
   \<and> serialize sample_order = sample_bytes
   \<and> parse 5 9 (serialize sample_order) initial_LatencyState
       = (Some sample_order, recordLatency initial_LatencyState 4)"
proof -
  have h1: "length (symbol sample_order) = 8"
    by (simp add: sample_order_def)
  have h2: "validateSymbol (symbol sample_order)"
    by (simp add: sample_order_def validateSymbol_def isalnum_def)
  have h3: "validatePrice (price sample_order)"
    by (simp add: sample_order_def validate_eval)
  have h4: "quantity sample_order > 0"
    by (simp add: sample_order_def)
  have h5: "serialize sample_order = sample_bytes"
    by (simp add: sample_order_def sample_bytes_def codec_eval)
  from parse_serialize_roundtrip [OF h1 h2 h3 h4, of 5 9 initial_LatencyState]
  have "parse 5 9 (serialize sample_order) initial_LatencyState
          = (Some sample_order, recordLatency initial_LatencyState 4)"
    by simp
  with h1 h2 h3 h4 h5 show ?thesis by simp
qed

section \<open>Side and type tags\<close>

lemma take_drop_update_tags:
  assumes "n + k \<le> 36"
  shows "take n (drop k (data[36 := s, 37 := t])) = take n (drop k data)"
proof -
  have "take (n + k) (data[36 := s, 37 := t]) = take (n + k) data"
    using assms by simp
  then have "drop k (take (n + k) (data[36 := s, 37 := t])) = drop k (take (n + k) data)"
    by simp
  then show ?thesis
    by (simp add: drop_take)
qed

lemma decoded_update_tags:
  assumes "38 \<le> length data"
  shows "decoded (data[36 := s, 37 := t]) = (decoded data)\<lparr>side := s, type := t\<rparr>"
proof -
  let ?d = "data[36 := s, 37 := t]"
  have "take 8 (take 38 ?d) = take 8 data"
       "take 8 (drop 8 (take 38 ?d)) = take 8 (drop 8 data)"
       "take 8 (drop 16 (take 38 ?d)) = take 8 (drop 16 data)"
       "take 4 (drop 24 (take 38 ?d)) = take 4 (drop 24 data)"
       "take 8 (drop 28 (take 38 ?d)) = take 8 (drop 28 data)"
    using take_drop_update_tags [of 8 0 data s t] take_drop_update_tags [of 8 8 data s t]
      take_drop_update_tags [of 8 16 data s t] take_drop_update_tags [of 4 24 data s t]
      take_drop_update_tags [of 8 28 data s t]
    by (simp_all add: drop_take)
  moreover have "take 38 ?d ! 36 = s" "take 38 ?d ! 37 = t"
    using assms by simp_all
  moreover have "take 8 (take 38 data) = take 8 data"
       "take 8 (drop 8 (take 38 data)) = take 8 (drop 8 data)"
       "take 8 (drop 16 (take 38 data)) = take 8 (drop 16 data)"
       "take 4 (drop 24 (take 38 data)) = take 4 (drop 24 data)"
       "take 8 (drop 28 (take 38 data)) = take 8 (drop 28 data)"
    by (simp_all add: drop_take)
  ultimately show ?thesis
    by (simp add: decoded_def sizeof_WireOrder_def bytes_to_WireOrder_def decode_fields_def)
qed

lemma decoded_tags:
  "38 \<le> length data \<Longrightarrow> side (decoded data) = data ! 36 \<and> type (decoded data) = data ! 37"
  by (simp add: decoded_def sizeof_WireOrder_def bytes_to_WireOrder_def decode_fields_def)

text \<open>
  C9. Take a buffer of at least 38 bytes whose symbol, price and quantity pass
  validation. \<open>parse\<close> accepts it and the record's side and type tags are the bytes at
  offsets 36 and 37. Whatever bytes \<open>s\<close> and \<open>t\<close> are written at these two offsets, \<open>parse\<close>
  still succeeds, and it returns the same record with \<open>s\<close> as its side tag and \<open>t\<close> as its
  type tag: no value of either byte is rejected or changed.
\<close>

theorem parse_tags_verbatim:
  assumes "38 \<le> length data"
    and "validateSymbol (symbol (decoded data))"
    and "validatePrice (price (decoded data))"
    and "validateQuantity (quantity (decoded data))"
  shows "parse tsc_start tsc_end data st
           = (Some (decoded data), recordLatency st (tsc_end - tsc_start))
         \<and> side (decoded data) = data ! 36 \<and> type (decoded data) = data ! 37
         \<and> parse tsc_start tsc_end (data[36 := s, 37 := t]) st
             = (Some ((decoded data)\<lparr>side := s, type := t\<rparr>),
                recordLatency st (tsc_end - tsc_start))"
proof -
  have "parse tsc_start tsc_end data st
          = (Some (decoded data), recordLatency st (tsc_end - tsc_start))"
    using assms by (simp add: parse_decoded sizeof_WireOrder_def)
  moreover have "parse tsc_start tsc_end (data[36 := s, 37 := t]) st
      = (Some ((decoded data)\<lparr>side := s, type := t\<rparr>), recordLatency st (tsc_end - tsc_start))"
    using assms by (simp add: parse_decoded sizeof_WireOrder_def decoded_update_tags)
  ultimately show ?thesis
    using decoded_tags [OF assms(1)] by simp
qed

theorem parse_tags_verbatim_witness:
  "38 \<le> length sample_bytes
   \<and> validateSymbol (symbol (decoded sample_bytes))
   \<and> validatePrice (price (decoded sample_bytes))
   \<and> validateQuantity (quantity (decoded sample_bytes))
   \<and> parse 5 9 (sample_bytes[36 := 0x7F, 37 := 0xEE]) initial_LatencyState
       = (Some (sample_order\<lparr>side := 0x7F, type := 0xEE\<rparr>),
          recordLatency initial_LatencyState 4)"
proof -
  have d: "decoded sample_bytes = sample_order"
    by (simp add: sample_bytes_def sample_order_def codec_eval)
  have h1: "38 \<le> length sample_bytes"
    by (simp add: sample_bytes_def)
  have h2: "validateSymbol (symbol (decoded sample_bytes))"
    unfolding d by (simp add: sample_order_def validate_eval)
  have h3: "validatePrice (price (decoded sample_bytes))"
    unfolding d by (simp add: sample_order_def validate_eval)
  have h4: "validateQuantity (quantity (decoded sample_bytes))"
    unfolding d by (simp add: sample_order_def validate_eval)
  from parse_tags_verbatim [OF h1 h2 h3 h4, of 5 9 initial_LatencyState "0x7F" "0xEE"]
  have "parse 5 9 (sample_bytes[36 := 0x7F, 37 := 0xEE]) initial_LatencyState
       = (Some (sample_order\<lparr>side := 0x7F, type := 0xEE\<rparr>),
          recordLatency initial_LatencyState 4)"
    by (simp add: d)
  with h1 h2 h3 h4 show ?thesis by simp
qed

section \<open>Bytes past the record\<close>

text \<open>
  C10. Two buffers of at least 38 bytes each that agree on their first 38 bytes give the
  same outcome: the same record or the same failure, and the same latency ring (for the
  same counter readings). Nothing at offset 38 or beyond is read.
\<close>

theorem parse_first_38_bytes:
  assumes "38 \<le> length a" and "38 \<le> length b" and "take 38 a = take 38 b"
  shows "parse tsc_start tsc_end a st = parse tsc_start tsc_end b st"
  using assms by (simp add: parse_def sizeof_WireOrder_def)

theorem parse_first_38_bytes_witness:
  "38 \<le> length (sample_bytes @ [1, 2, 3])
   \<and> 38 \<le> length (sample_bytes @ [0xFF])
   \<and> take 38 (sample_bytes @ [1, 2, 3]) = take 38 (sample_bytes @ [0xFF])
   \<and> parse 5 9 (sample_bytes @ [1, 2, 3]) initial_LatencyState
       = parse 5 9 (sample_bytes @ [0xFF]) initial_LatencyState"
proof -
  have h1: "38 \<le> length (sample_bytes @ [1, 2, 3])"
    by (simp add: sample_bytes_def)
  have h2: "38 \<le> length (sample_bytes @ [0xFF])"
    by (simp add: sample_bytes_def)
  have h3: "take 38 (sample_bytes @ [1, 2, 3]) = take 38 (sample_bytes @ [0xFF])"
    by (simp add: sample_bytes_def)
  from parse_first_38_bytes [OF h1 h2 h3, of 5 9 initial_LatencyState] h1 h2 h3
  show ?thesis by simp
qed

section \<open>Which validation failure\<close>




section \<open>Queue capacity\<close>

lemma replicate_4: "replicate 4 x = [x, x, x, x]"
  by (simp add: numeral_eq_Suc)

lemma nat_and_pred_eq_0_iff:
  fixes n :: nat
  assumes "0 < n"
  shows "n AND (n - 1) = 0 \<longleftrightarrow> (\<exists>k. n = 2 ^ k)"
  using assms
proof (induction n rule: less_induct)
  case (less n)
  show ?case
  proof (cases "even n")
    case True
    then obtain m where m: "n = 2 * m" by (elim evenE)
    with less.prems have mpos: "0 < m" by simp
    have pred: "n - 1 = 2 * (m - 1) + 1" using m mpos by simp
    have "n AND (n - 1) = 2 * (m AND (m - 1))"
      unfolding pred unfolding m by (subst and_nat_rec) simp
    moreover have "m AND (m - 1) = 0 \<longleftrightarrow> (\<exists>k. m = 2 ^ k)"
      using less.IH [of m] m mpos by simp
    moreover have "(\<exists>k. m = 2 ^ k) \<longleftrightarrow> (\<exists>k. n = 2 ^ k)"
    proof
      assume "\<exists>k. m = 2 ^ k"
      then obtain k where "m = 2 ^ k" ..
      then have "n = 2 ^ Suc k" using m by simp
      then show "\<exists>k. n = 2 ^ k" ..
    next
      assume "\<exists>k. n = 2 ^ k"
      then obtain k where k: "n = 2 ^ k" ..
      with m mpos have "k \<noteq> 0" by (cases k) auto
      then obtain j where "k = Suc j" by (cases k) auto
      with k m have "m = 2 ^ j" by simp
      then show "\<exists>k. m = 2 ^ k" ..
    qed
    ultimately show ?thesis by simp
  next
    case False
    then obtain m where m: "n = 2 * m + 1" by (elim oddE)
    have "n AND (n - 1) = 2 * m"
      unfolding m by (subst and_nat_rec) simp
    moreover have "(\<exists>k. n = 2 ^ k) \<longleftrightarrow> m = 0"
    proof
      assume "\<exists>k. n = 2 ^ k"
      then obtain k where k: "n = 2 ^ k" ..
      with False have "k = 0" by (cases k) auto
      with k m show "m = 0" by simp
    next
      assume "m = 0"
      with m have "n = 2 ^ 0" by simp
      then show "\<exists>k. n = 2 ^ k" ..
    qed
    ultimately show ?thesis by auto
  qed
qed

lemma capacity_guard_iff:
  fixes c :: "64 word"
  shows "\<not> (c < 2 \<or> c AND (c - 1) \<noteq> 0) \<longleftrightarrow> power_of_two_ge2 c"
proof (cases "c = 0")
  case True
  then show ?thesis by (simp add: power_of_two_ge2_def)
next
  case False
  then have pos: "0 < unat c" by (simp add: unat_gt_0)
  have "unat (c AND (c - 1)) = unat c AND (unat c - 1)"
    using False by (simp add: unsigned_and_eq unat_minus_one)
  then have and0: "c AND (c - 1) = 0 \<longleftrightarrow> (\<exists>k. unat c = 2 ^ k)"
    using nat_and_pred_eq_0_iff [OF pos] by (metis unat_eq_0)
  have lt2: "c < 2 \<longleftrightarrow> unat c < 2"
    by (simp add: word_less_nat_alt)
  show ?thesis
  proof
    assume "\<not> (c < 2 \<or> c AND (c - 1) \<noteq> 0)"
    then have c2: "2 \<le> unat c" and "\<exists>k. unat c = 2 ^ k"
      using and0 lt2 by auto
    then obtain k where k: "unat c = 2 ^ k" by blast
    with c2 have "1 \<le> k" by (cases k) auto
    with k show "power_of_two_ge2 c" unfolding power_of_two_ge2_def by blast
  next
    assume "power_of_two_ge2 c"
    then obtain k where k: "1 \<le> k" "unat c = 2 ^ k" unfolding power_of_two_ge2_def by blast
    then have "2 ^ 1 \<le> unat c" by (simp only: k power_increasing)
    then have "\<not> c < 2" using lt2 by simp
    moreover have "c AND (c - 1) = 0" using and0 k by blast
    ultimately show "\<not> (c < 2 \<or> c AND (c - 1) \<noteq> 0)" by simp
  qed
qed

lemma unat_pow2_63: "unat (0x8000000000000000 :: 64 word) = 2 ^ 63"
  by simp

text \<open>
  Where \<open>capacity_ * sizeof(T)\<close> does not fit \<open>size_t\<close> the block is smaller than the slots:
  for \<open>2 ^ 62\<close> slots of 4 bytes it has no byte at all.
\<close>

lemma SPSCQueue_init_Inr:
  assumes "\<not> (c < 2 \<or> c AND (c - 1) \<noteq> 0)" and "operator_new (c * sizeof_T)"
  shows "SPSCQueue_init sizeof_T operator_new c
         = Inr \<lparr> capacity = c, buffer = replicate (unat c) None,
                 storage = c * sizeof_T, head = 0, tail = 0 \<rparr>"
  using assms unfolding SPSCQueue_init_def by (simp only: if_False not_True_eq_False)

lemma SPSCQueue_init_storage_wraps:
  "\<exists>q :: 'a SPSCQueue. SPSCQueue_init 4 heap_4GiB 0x4000000000000000 = Inr q \<and> storage q = 0"
proof -
  have g: "\<not> ((0x4000000000000000 :: 64 word) < 2
      \<or> 0x4000000000000000 AND (0x4000000000000000 - 1) \<noteq> (0 :: 64 word))"
    by simp
  have z: "(0x4000000000000000 :: 64 word) * 4 = 0"
    by simp
  have a: "heap_4GiB (0x4000000000000000 * 4)"
    unfolding z by (simp add: heap_4GiB_def)
  note i = SPSCQueue_init_Inr
    [where c = "0x4000000000000000" and sizeof_T = 4 and operator_new = heap_4GiB
      and 'a = 'a, OF g a]
  have "storage \<lparr> capacity = 0x4000000000000000,
      buffer = replicate (unat (0x4000000000000000 :: 64 word)) (None :: 'a option),
      storage = 0x4000000000000000 * 4, head = 0, tail = 0 \<rparr> = 0"
    by (simp only: SPSCQueue.select_convs z)
  with i show ?thesis by blast
qed

text \<open>
  C6 as stated does not hold: a capacity that is a power of two and at least 2 is not
  enough for the constructor to return a queue. \<open>SPSCQueue<uint8_t>\<close> of capacity
  \<open>2 ^ 63\<close> passes the guard and asks \<open>operator new[]\<close> for \<open>2 ^ 63\<close> bytes; with an
  allocator that has no such block the constructor throws \<open>std::bad_alloc\<close>, not
  \<open>std::invalid_argument\<close>, and there is no queue.
\<close>

theorem SPSCQueue_capacity_bad_alloc:
  "power_of_two_ge2 0x8000000000000000
   \<and> (SPSCQueue_init 1 heap_4GiB 0x8000000000000000 :: queue_error + 8 word SPSCQueue)
       = Inl BadAlloc"
proof -
  have "power_of_two_ge2 0x8000000000000000"
    unfolding power_of_two_ge2_def using unat_pow2_63 by (intro exI [of _ 63]) simp
  moreover have "(SPSCQueue_init 1 heap_4GiB 0x8000000000000000
      :: queue_error + 8 word SPSCQueue) = Inl BadAlloc"
    by (simp add: SPSCQueue_init_def heap_4GiB_def)
  ultimately show ?thesis by simp
qed

text \<open>
  C6, amended. The constructor throws \<open>std::invalid_argument\<close> exactly when the requested
  capacity is not a power of two that is at least 2, and then no queue comes into
  existence; a queue is returned only for a power of two that is at least 2 whose block
  \<open>operator new[]\<close> returned. For such a capacity whose size in bytes
  \<open>capacity * sizeof(T)\<close> fits \<open>size_t\<close>, the constructor returns the empty queue of that many
  slots, in a block of that many bytes, when \<open>operator new[]\<close> returns the block, and throws
  \<open>std::bad_alloc\<close> when it does not. Capacities 0, 3 and 6 are refused and capacity 4 is
  accepted, given its block.
\<close>

theorem SPSCQueue_capacity_guard:
  "((SPSCQueue_init sizeof_T operator_new c :: queue_error + 'a SPSCQueue) = Inl InvalidArgument
      \<longleftrightarrow> \<not> power_of_two_ge2 c)
   \<and> ((\<exists>q :: 'a SPSCQueue. SPSCQueue_init sizeof_T operator_new c = Inr q)
        \<longrightarrow> power_of_two_ge2 c \<and> operator_new (c * sizeof_T))
   \<and> (power_of_two_ge2 c \<and> unat c * unat sizeof_T < 2 ^ 64 \<and> operator_new (c * sizeof_T)
        \<longrightarrow> (SPSCQueue_init sizeof_T operator_new c :: queue_error + 'a SPSCQueue)
              = Inr \<lparr> capacity = c, buffer = replicate (unat c) None,
                      storage = c * sizeof_T, head = 0, tail = 0 \<rparr>
            \<and> unat (c * sizeof_T) = unat c * unat sizeof_T)
   \<and> (power_of_two_ge2 c \<and> unat c * unat sizeof_T < 2 ^ 64 \<and> \<not> operator_new (c * sizeof_T)
        \<longrightarrow> (SPSCQueue_init sizeof_T operator_new c :: queue_error + 'a SPSCQueue)
              = Inl BadAlloc)
   \<and> (SPSCQueue_init sizeof_T operator_new 0 :: queue_error + 'a SPSCQueue) = Inl InvalidArgument
   \<and> (SPSCQueue_init sizeof_T operator_new 3 :: queue_error + 'a SPSCQueue) = Inl InvalidArgument
   \<and> (SPSCQueue_init sizeof_T operator_new 6 :: queue_error + 'a SPSCQueue) = Inl InvalidArgument
   \<and> (unat sizeof_T < 2 ^ 62 \<and> operator_new (4 * sizeof_T)
        \<longrightarrow> (SPSCQueue_init sizeof_T operator_new 4 :: queue_error + 'a SPSCQueue)
              = Inr \<lparr> capacity = 4, buffer = [None, None, None, None],
                      storage = 4 * sizeof_T, head = 0, tail = 0 \<rparr>)"
proof -
  have "(SPSCQueue_init sizeof_T operator_new c :: queue_error + 'a SPSCQueue) = Inl InvalidArgument
      \<longleftrightarrow> \<not> power_of_two_ge2 c"
    using capacity_guard_iff [of c] by (auto simp: SPSCQueue_init_def)
  moreover have "(\<exists>q :: 'a SPSCQueue. SPSCQueue_init sizeof_T operator_new c = Inr q)
        \<longrightarrow> power_of_two_ge2 c \<and> operator_new (c * sizeof_T)"
    using capacity_guard_iff [of c] by (auto simp: SPSCQueue_init_def split: if_splits)
  moreover have "power_of_two_ge2 c \<and> unat c * unat sizeof_T < 2 ^ 64 \<and> operator_new (c * sizeof_T)
        \<longrightarrow> (SPSCQueue_init sizeof_T operator_new c :: queue_error + 'a SPSCQueue)
              = Inr \<lparr> capacity = c, buffer = replicate (unat c) None,
                      storage = c * sizeof_T, head = 0, tail = 0 \<rparr>
            \<and> unat (c * sizeof_T) = unat c * unat sizeof_T"
  proof (intro impI, elim conjE)
    assume p: "power_of_two_ge2 c" and fit: "unat c * unat sizeof_T < 2 ^ 64"
      and al: "operator_new (c * sizeof_T)"
    have "unat (c * sizeof_T) = unat c * unat sizeof_T"
      using fit unat_mult_lem [of c sizeof_T] by simp
    moreover have "(SPSCQueue_init sizeof_T operator_new c :: queue_error + 'a SPSCQueue)
              = Inr \<lparr> capacity = c, buffer = replicate (unat c) None,
                      storage = c * sizeof_T, head = 0, tail = 0 \<rparr>"
      using capacity_guard_iff [of c] p al by (auto simp: SPSCQueue_init_def)
    ultimately show "(SPSCQueue_init sizeof_T operator_new c :: queue_error + 'a SPSCQueue)
              = Inr \<lparr> capacity = c, buffer = replicate (unat c) None,
                      storage = c * sizeof_T, head = 0, tail = 0 \<rparr>
            \<and> unat (c * sizeof_T) = unat c * unat sizeof_T" by simp
  qed
  moreover have "power_of_two_ge2 c \<and> unat c * unat sizeof_T < 2 ^ 64
        \<and> \<not> operator_new (c * sizeof_T)
        \<longrightarrow> (SPSCQueue_init sizeof_T operator_new c :: queue_error + 'a SPSCQueue)
              = Inl BadAlloc"
    using capacity_guard_iff [of c] by (auto simp: SPSCQueue_init_def)
  moreover have
    "(SPSCQueue_init sizeof_T operator_new 0 :: queue_error + 'a SPSCQueue) = Inl InvalidArgument"
    "(SPSCQueue_init sizeof_T operator_new 3 :: queue_error + 'a SPSCQueue) = Inl InvalidArgument"
    "(SPSCQueue_init sizeof_T operator_new 6 :: queue_error + 'a SPSCQueue) = Inl InvalidArgument"
    by (simp_all add: SPSCQueue_init_def)
  moreover have "unat sizeof_T < 2 ^ 62 \<and> operator_new (4 * sizeof_T)
        \<longrightarrow> (SPSCQueue_init sizeof_T operator_new 4 :: queue_error + 'a SPSCQueue)
              = Inr \<lparr> capacity = 4, buffer = [None, None, None, None],
                      storage = 4 * sizeof_T, head = 0, tail = 0 \<rparr>"
    by (simp add: SPSCQueue_init_def replicate_4)
  ultimately show ?thesis by (intro conjI)
qed

theorem SPSCQueue_capacity_guard_witness:
  "power_of_two_ge2 8
   \<and> unat (8 :: 64 word) * unat (8 :: 64 word) < 2 ^ 64
   \<and> heap_4GiB (8 * 8)
   \<and> (SPSCQueue_init 8 heap_4GiB 8 :: queue_error + nat SPSCQueue)
       = Inr \<lparr> capacity = 8, buffer = replicate 8 None, storage = 64, head = 0, tail = 0 \<rparr>
   \<and> (\<exists>q :: nat SPSCQueue. SPSCQueue_init 8 heap_4GiB 8 = Inr q)
   \<and> \<not> power_of_two_ge2 12
   \<and> (SPSCQueue_init 8 heap_4GiB 12 :: queue_error + nat SPSCQueue) = Inl InvalidArgument
   \<and> power_of_two_ge2 0x10000000000
   \<and> unat (0x10000000000 :: 64 word) * unat (8 :: 64 word) < 2 ^ 64
   \<and> \<not> heap_4GiB (0x10000000000 * 8)
   \<and> (SPSCQueue_init 8 heap_4GiB 0x10000000000 :: queue_error + nat SPSCQueue) = Inl BadAlloc
   \<and> unat (8 :: 64 word) < 2 ^ 62
   \<and> heap_4GiB (4 * 8)
   \<and> (SPSCQueue_init 8 heap_4GiB 4 :: queue_error + nat SPSCQueue)
       = Inr \<lparr> capacity = 4, buffer = [None, None, None, None], storage = 32,
               head = 0, tail = 0 \<rparr>"
proof -
  have "unat (8 :: 64 word) = 2 ^ 3" by simp
  then have h8: "power_of_two_ge2 8"
    unfolding power_of_two_ge2_def by (intro exI [of _ 3]) simp
  have "(12 :: 64 word) AND (12 - 1) \<noteq> 0" by simp
  then have h12: "\<not> power_of_two_ge2 12"
    using capacity_guard_iff [of 12] by blast
  have "unat (0x10000000000 :: 64 word) = 2 ^ 40" by simp
  then have hbig: "power_of_two_ge2 0x10000000000"
    unfolding power_of_two_ge2_def by (intro exI [of _ 40]) simp
  have fit8: "unat (8 :: 64 word) * unat (8 :: 64 word) < 2 ^ 64" by simp
  have fitbig: "unat (0x10000000000 :: 64 word) * unat (8 :: 64 word) < 2 ^ 64" by simp
  have fit4: "unat (8 :: 64 word) < 2 ^ 62" by simp
  have a8: "heap_4GiB (8 * 8)" by (simp add: heap_4GiB_def)
  have abig: "\<not> heap_4GiB (0x10000000000 * 8)" by (simp add: heap_4GiB_def)
  have a4: "heap_4GiB (4 * 8)" by (simp add: heap_4GiB_def)
  note g8 = SPSCQueue_capacity_guard
    [where sizeof_T = 8 and operator_new = heap_4GiB and c = 8 and 'a = nat]
  note g12 = SPSCQueue_capacity_guard
    [where sizeof_T = 8 and operator_new = heap_4GiB and c = 12 and 'a = nat]
  note gbig = SPSCQueue_capacity_guard
    [where sizeof_T = 8 and operator_new = heap_4GiB and c = "0x10000000000"
      and 'a = nat]
  note c8 = g8 [THEN conjunct2, THEN conjunct2, THEN conjunct1, THEN mp,
    OF conjI [OF h8 conjI [OF fit8 a8]]]
  then have r8: "(SPSCQueue_init 8 heap_4GiB 8 :: queue_error + nat SPSCQueue)
       = Inr \<lparr> capacity = 8, buffer = replicate 8 None, storage = 64, head = 0, tail = 0 \<rparr>"
    by simp
  then have e8: "\<exists>q :: nat SPSCQueue. SPSCQueue_init 8 heap_4GiB 8 = Inr q"
    by (rule exI)
  note r12 = g12 [THEN conjunct1, THEN iffD2, OF h12]
  note rbig = gbig [THEN conjunct2, THEN conjunct2, THEN conjunct2, THEN conjunct1, THEN mp,
    OF conjI [OF hbig conjI [OF fitbig abig]]]
  note c4 = g8 [THEN conjunct2, THEN conjunct2, THEN conjunct2, THEN conjunct2,
    THEN conjunct2, THEN conjunct2, THEN conjunct2, THEN mp, OF conjI [OF fit4 a4]]
  then have r4: "(SPSCQueue_init 8 heap_4GiB 4 :: queue_error + nat SPSCQueue)
       = Inr \<lparr> capacity = 4, buffer = [None, None, None, None], storage = 32,
               head = 0, tail = 0 \<rparr>"
    by simp
  from h8 fit8 a8 r8 e8 h12 r12 hbig fitbig abig rbig fit4 a4 r4
  show ?thesis by (intro conjI)
qed

section \<open>Queue occupancy\<close>

lemma unat_next_index:
  assumes "power_of_two_ge2 c"
  shows "unat ((x + 1) AND (c - 1)) = (unat x + 1) mod unat c"
proof -
  from assms obtain k where k: "1 \<le> k" "unat c = 2 ^ k"
    unfolding power_of_two_ge2_def by blast
  have "(2::nat) ^ k < 2 ^ LENGTH(64)"
    unfolding k(2) [symmetric] by (rule unsigned_less)
  then have "k < LENGTH(64)"
    by (simp only: power_strict_increasing_iff one_less_numeral_iff semiring_norm)
  then have k64: "k < 64" by simp
  have "c = of_nat (unat c)" by simp
  then have c: "c = 2 ^ k" unfolding k by simp
  have "(x + 1) AND (c - 1) = take_bit k (x + 1)"
    unfolding c by (simp add: take_bit_eq_mask mask_eq_decr_exp)
  then have "unat ((x + 1) AND (c - 1)) = unat (take_bit k (x + 1))"
    by (rule arg_cong)
  also have "\<dots> = take_bit k (unat (x + 1))"
    by (rule unsigned_take_bit_eq)
  also have "\<dots> = unat (x + 1) mod 2 ^ k"
    by (rule take_bit_eq_mod)
  also have "unat (x + 1) = (unat x + 1) mod 2 ^ 64"
    by (simp add: unat_word_ariths)
  also have "(unat x + 1) mod 2 ^ 64 mod 2 ^ k = (unat x + 1) mod 2 ^ k"
  proof (rule mod_mod_cancel)
    show "(2::nat) ^ k dvd 2 ^ 64"
      by (rule le_imp_power_dvd) (use k64 in simp)
  qed
  finally show ?thesis by (simp add: k)
qed

lemma filter_update_Some:
  "i < length xs \<Longrightarrow> xs ! i = None \<Longrightarrow>
   length (filter (\<lambda>s. s \<noteq> None) (xs[i := Some v])) = Suc (length (filter (\<lambda>s. s \<noteq> None) xs))"
proof (induction xs arbitrary: i)
  case Nil
  then show ?case by simp
next
  case (Cons x xs)
  then show ?case by (cases i) auto
qed

lemma filter_update_None:
  "i < length xs \<Longrightarrow> xs ! i \<noteq> None \<Longrightarrow>
   Suc (length (filter (\<lambda>s. s \<noteq> None) (xs[i := None]))) = length (filter (\<lambda>s. s \<noteq> None) xs)"
proof (induction xs arbitrary: i)
  case Nil
  then show ?case by simp
next
  case (Cons x xs)
  then show ?case by (cases i) auto
qed

lemma mod_add_left_inj_le:
  fixes N :: nat
  assumes "j \<le> d" "d < N" "(t + j) mod N = (t + d) mod N"
  shows "j = d"
proof -
  have "N dvd (t + d) - (t + j)"
    using mod_eq_dvd_iff_nat [of "t + j" "t + d" N] assms(1,3) by auto
  then have "N dvd d - j" by simp
  moreover have "d - j < N" using assms(2) by simp
  ultimately have "d - j = 0"
    by (meson nat_dvd_not_less neq0_conv)
  with assms(1) show ?thesis by simp
qed

lemma mod_add_left_inj:
  fixes N :: nat
  assumes "j < N" "d < N"
  shows "(t + j) mod N = (t + d) mod N \<longleftrightarrow> j = d"
proof
  assume eq: "(t + j) mod N = (t + d) mod N"
  show "j = d"
  proof (cases "j \<le> d")
    case True
    with assms eq show ?thesis by (simp add: mod_add_left_inj_le)
  next
    case False
    then have "d \<le> j" by simp
    with assms eq mod_add_left_inj_le [of d j N t] show ?thesis by simp
  qed
qed simp

lemma push_preserves_inv:
  assumes inv: "queue_inv q"
  shows "queue_inv (snd (push q x)) \<and> capacity (snd (push q x)) = capacity q"
proof (cases "(head q + 1) AND (capacity q - 1) = tail q")
  case True
  then show ?thesis using inv by (simp add: push_def)
next
  case False
  define N where "N = unat (capacity q)"
  define t where "t = unat (tail q)"
  define d where "d = live_count q"
  define q' where "q' = q\<lparr> buffer := (buffer q)[unat (head q) := Some x],
                            head := (head q + 1) AND (capacity q - 1) \<rparr>"
  have p2: "power_of_two_ge2 (capacity q)"
    and len: "length (buffer q) = N"
    and tN: "t < N"
    and dN: "d < N"
    and h: "unat (head q) = (t + d) mod N"
    and slots: "\<And>j. j < N \<Longrightarrow> (buffer q ! ((t + j) mod N) \<noteq> None) = (j < d)"
    using inv by (simp_all add: queue_inv_def N_def t_def d_def)
  have push: "push q x = (True, q')"
    using False by (simp add: push_def q'_def Let_def)
  have "unat ((head q + 1) AND (capacity q - 1)) \<noteq> unat (tail q)"
    using False by (simp add: word_unat_eq_iff)
  then have next_ne: "(t + d + 1) mod N \<noteq> t"
    by (simp add: unat_next_index [OF p2] h N_def [symmetric] t_def [symmetric] mod_Suc_eq)
  have d1: "Suc d < N"
  proof (rule ccontr)
    assume "\<not> Suc d < N"
    with dN have "t + d + 1 = t + N" by simp
    then have "(t + d + 1) mod N = (t + N) mod N" by (rule arg_cong)
    then have "(t + d + 1) mod N = t" using tN by simp
    with next_ne show False by simp
  qed
  have hN: "unat (head q) < N"
    using tN by (simp add: h)
  have "buffer q ! ((t + d) mod N) = None"
    using slots [OF dN] by simp
  then have old: "buffer q ! unat (head q) = None"
    by (simp add: h)
  have live': "live_count q' = Suc d"
    using filter_update_Some [of "unat (head q)" "buffer q" x] hN len old
    by (simp add: live_count_def q'_def d_def)
  have head': "unat (head q') = (t + Suc d) mod N"
    by (simp add: q'_def unat_next_index [OF p2] h N_def [symmetric] mod_Suc_eq)
  have slots': "(buffer q' ! ((t + j) mod N) \<noteq> None) = (j < Suc d)" if j: "j < N" for j
  proof (cases "j = d")
    case True
    then show ?thesis using hN len by (simp add: q'_def h)
  next
    case False
    then have "(t + j) mod N \<noteq> (t + d) mod N"
      using mod_add_left_inj [OF j dN, of t] by simp
    then have "buffer q' ! ((t + j) mod N) = buffer q ! ((t + j) mod N)"
      by (simp add: q'_def h)
    with slots [OF j] False show ?thesis by auto
  qed
  have "queue_inv q'"
    unfolding queue_inv_def
    using p2 len tN d1 head' slots' live'
    by (simp add: q'_def N_def [symmetric] t_def [symmetric])
  then show ?thesis
    by (simp add: push) (simp add: q'_def)
qed

lemma pop_preserves_inv:
  assumes inv: "queue_inv q"
  shows "queue_inv (snd (pop q)) \<and> capacity (snd (pop q)) = capacity q"
proof (cases "tail q = head q")
  case True
  then show ?thesis using inv by (simp add: pop_def)
next
  case False
  define N where "N = unat (capacity q)"
  define t where "t = unat (tail q)"
  define d where "d = live_count q"
  define q' where "q' = q\<lparr> buffer := (buffer q)[unat (tail q) := None],
                            tail := (tail q + 1) AND (capacity q - 1) \<rparr>"
  have p2: "power_of_two_ge2 (capacity q)"
    and len: "length (buffer q) = N"
    and tN: "t < N"
    and dN: "d < N"
    and h: "unat (head q) = (t + d) mod N"
    and slots: "\<And>j. j < N \<Longrightarrow> (buffer q ! ((t + j) mod N) \<noteq> None) = (j < d)"
    using inv by (simp_all add: queue_inv_def N_def t_def d_def)
  have pop: "snd (pop q) = q'"
    using False by (simp add: pop_def q'_def Let_def)
  have "unat (tail q) \<noteq> unat (head q)"
    using False by (simp add: word_unat_eq_iff)
  then have dpos: "0 < d"
    using tN by (cases "d = 0") (simp_all add: h t_def)
  have "buffer q ! ((t + 0) mod N) \<noteq> None"
    using slots [of 0] dpos tN by simp
  then have old: "buffer q ! t \<noteq> None"
    using tN by simp
  have "Suc (live_count q') = d"
    using filter_update_None [of t "buffer q"] tN len old
    by (simp add: live_count_def q'_def d_def t_def)
  then have live': "live_count q' = d - 1" by simp
  define t' where "t' = (t + 1) mod N"
  have tail': "unat (tail q') = t'"
    by (simp add: q'_def unat_next_index [OF p2] N_def [symmetric] t_def [symmetric] t'_def)
  have t'N: "t' < N"
    using tN by (simp add: t'_def)
  have shift: "(t' + j) mod N = (t + Suc j) mod N" for j
    by (simp add: t'_def mod_add_left_eq)
  have head': "unat (head q') = (t' + (d - 1)) mod N"
  proof -
    from dpos obtain e where e: "d = Suc e" by (cases d) auto
    have "unat (head q') = (t + Suc e) mod N"
      by (simp add: q'_def h e)
    then show ?thesis
      by (simp only: shift e diff_Suc_1)
  qed
  have slots': "(buffer q' ! ((t' + j) mod N) \<noteq> None) = (j < d - 1)"
    if j: "j < N" for j
  proof (cases "Suc j < N")
    case True
    have "(t + Suc j) mod N \<noteq> (t + 0) mod N"
      using mod_add_left_inj [OF True, of 0 t] tN by simp
    then have "(t + Suc j) mod N \<noteq> t" using tN by simp
    then have "buffer q' ! ((t + Suc j) mod N) = buffer q ! ((t + Suc j) mod N)"
      by (simp add: q'_def t_def)
    moreover have "(Suc j < d) = (j < d - 1)" by auto
    ultimately show ?thesis
      using slots [OF True] by (simp only: shift)
  next
    case False
    with j have "Suc j = N" by simp
    then have "(t + Suc j) mod N = t" using tN by simp
    then have "buffer q' ! ((t + Suc j) mod N) = None"
      using tN len by (simp add: q'_def t_def)
    moreover have "\<not> j < d - 1" using \<open>Suc j = N\<close> dN by simp
    ultimately show ?thesis by (simp only: shift) simp
  qed
  have "length (buffer q') = N" "capacity q' = capacity q"
    using len by (simp_all add: q'_def)
  with p2 dN t'N head' slots' live' have "queue_inv q'"
    unfolding queue_inv_def tail' by (simp add: N_def [symmetric])
  then show ?thesis
    by (simp add: pop) (simp add: q'_def)
qed

lemma step_preserves_inv:
  "queue_inv q \<Longrightarrow> queue_inv (snd (step x q)) \<and> capacity (snd (step x q)) = capacity q"
proof (cases x)
  case (Push v)
  assume "queue_inv q"
  from push_preserves_inv [OF this, of v] Push show ?thesis
    by (simp add: case_prod_beta)
next
  case Pop
  assume "queue_inv q"
  from pop_preserves_inv [OF this] Pop show ?thesis
    by (simp add: case_prod_beta)
qed

lemma run_preserves_inv:
  "queue_inv q \<Longrightarrow> queue_inv (snd (run xs q)) \<and> capacity (snd (run xs q)) = capacity q"
proof (induction xs arbitrary: q)
  case Nil
  then show ?case by simp
next
  case (Cons x xs)
  from step_preserves_inv [OF Cons.prems, of x]
  have s: "queue_inv (snd (step x q))" "capacity (snd (step x q)) = capacity q"
    by simp_all
  from Cons.IH [OF s(1)] s(2) show ?case
    by (simp add: case_prod_beta)
qed

lemma init_inv:
  assumes "SPSCQueue_init sizeof_T operator_new c = Inr q"
  shows "queue_inv q \<and> capacity q = c"
proof -
  have guard: "\<not> (c < 2 \<or> c AND (c - 1) \<noteq> 0)"
    using assms by (auto simp: SPSCQueue_init_def split: if_splits)
  then have p2: "power_of_two_ge2 c"
    by (simp only: capacity_guard_iff)
  have q: "q = \<lparr> capacity = c, buffer = replicate (unat c) None,
                 storage = c * sizeof_T, head = 0, tail = 0 \<rparr>"
    using assms guard by (simp add: SPSCQueue_init_def split: if_splits)
  from p2 obtain k where "unat c = 2 ^ k"
    unfolding power_of_two_ge2_def by blast
  then have "0 < unat c" by simp
  with p2 show ?thesis
    by (simp add: q queue_inv_def live_count_def)
qed

lemma inv_live_count:
  "queue_inv q \<Longrightarrow> live_count q \<le> unat (capacity q) - 1"
  unfolding queue_inv_def by linarith

lemma unat_masked:
  assumes "power_of_two_ge2 c"
  shows "unat (x AND (c - 1)) = unat x mod unat c"
proof -
  from assms obtain k where k: "1 \<le> k" "unat c = 2 ^ k"
    unfolding power_of_two_ge2_def by blast
  have "c = of_nat (unat c)" by simp
  then have c: "c = 2 ^ k" unfolding k by simp
  have "x AND (c - 1) = take_bit k x"
    unfolding c by (simp add: take_bit_eq_mask mask_eq_decr_exp)
  then have "unat (x AND (c - 1)) = unat (take_bit k x)"
    by (rule arg_cong)
  also have "\<dots> = take_bit k (unat x)"
    by (rule unsigned_take_bit_eq)
  also have "\<dots> = unat x mod 2 ^ k"
    by (rule take_bit_eq_mod)
  finally show ?thesis by (simp only: k)
qed

lemma capacity_dvd_word_size:
  assumes "power_of_two_ge2 c"
  shows "unat c dvd 2 ^ 64"
proof -
  from assms obtain k where k: "1 \<le> k" "unat c = 2 ^ k"
    unfolding power_of_two_ge2_def by blast
  have "(2::nat) ^ k < 2 ^ LENGTH(64)"
    unfolding k(2) [symmetric] by (rule unsigned_less)
  then have "k < LENGTH(64)"
    by (simp only: power_strict_increasing_iff one_less_numeral_iff semiring_norm)
  then have "k \<le> 64" by simp
  then have "(2::nat) ^ k dvd 2 ^ 64" by (rule le_imp_power_dvd)
  then show ?thesis by (simp only: k)
qed

lemma inv_queue_size:
  assumes "queue_inv q"
  shows "unat (queue_size q) = live_count q"
proof -
  define N where "N = unat (capacity q)"
  define t where "t = unat (tail q)"
  define h where "h = unat (head q)"
  define d where "d = live_count q"
  have p2: "power_of_two_ge2 (capacity q)"
    and tN: "t < N"
    and dN: "d < N"
    and hd: "h = (t + d) mod N"
    using assms by (simp_all add: queue_inv_def N_def t_def d_def h_def)
  have hN: "h < N" using tN by (simp add: hd)
  have size: "unat (queue_size q) = unat (head q - tail q) mod N"
    by (simp only: queue_size_def unat_masked [OF p2] N_def)
  show ?thesis
  proof (cases "t \<le> h")
    case True
    have "t + d < N"
    proof (rule ccontr)
      assume "\<not> t + d < N"
      then have ge: "N \<le> t + d" by simp
      then have "(t + d) mod N = t + d - N"
        using tN dN by (simp add: le_mod_geq)
      then have "h = t + d - N" by (simp only: hd)
      with ge dN True show False by linarith
    qed
    then have "h = t + d" by (simp add: hd)
    moreover have "unat (head q - tail q) = h - t"
      using True by (simp add: unat_sub_if_size h_def t_def)
    ultimately show ?thesis
      using dN by (simp add: size d_def)
  next
    case False
    then have lt: "h < t" by simp
    have "\<not> t + d < N"
    proof
      assume "t + d < N"
      then have "h = t + d" by (simp add: hd)
      with lt show False by simp
    qed
    then have "(t + d) mod N = t + d - N"
      using tN dN by (simp add: le_mod_geq)
    then have hval: "h + N = t + d" using \<open>\<not> t + d < N\<close> by (simp add: hd)
    from capacity_dvd_word_size [OF p2] obtain M where M: "(2::nat) ^ 64 = N * M"
      unfolding N_def by (elim dvdE)
    have "N \<le> 2 ^ 64"
      using unsigned_less [of "capacity q", where 'a = nat] by (simp add: N_def)
    then have "0 < M" using M tN by (cases "M = 0") simp_all
    then obtain M' where M': "M = Suc M'" by (cases M) auto
    have "unat (head q - tail q) = h + 2 ^ 64 - t"
      using lt by (simp add: unat_sub_if_size h_def t_def size_word.rep_eq)
    also have "\<dots> = d + N * M'"
      using hval tN unfolding M M' by simp
    finally have "unat (head q - tail q) mod N = d"
      using dN by simp
    then show ?thesis by (simp add: size d_def)
  qed
qed

text \<open>
  C3. Construct a queue of capacity \<open>c\<close>, whatever the size of its elements and the
  allocator, and run any sequence of pushes and pops on it: afterwards (hence after every
  call, the sequence being arbitrary) the number of slots holding an object is at most
  \<open>c - 1\<close>, and it is the number that \<open>size()\<close> returns. A queue of capacity 4 is
  constructed once \<open>operator new[]\<close> returns its block, and on it three pushes in a row
  return \<open>true\<close> and a fourth returns \<open>false\<close>, leaving three objects in the queue.
\<close>

theorem live_elements_bound:
  "(SPSCQueue_init sizeof_T operator_new c = Inr q \<longrightarrow>
      live_count (snd (run ops q)) \<le> unat c - 1
      \<and> unat (queue_size (snd (run ops q))) = live_count (snd (run ops q)))
   \<and> (operator_new (4 * sizeof_T) \<longrightarrow>
        (\<exists>q0. SPSCQueue_init sizeof_T operator_new 4 = Inr q0
          \<and> fst (run [Push x1, Push x2, Push x3, Push x4] q0)
              = [PushResult True, PushResult True, PushResult True, PushResult False]
          \<and> live_count (snd (run [Push x1, Push x2, Push x3, Push x4] q0)) = 3))"
proof
  show "SPSCQueue_init sizeof_T operator_new c = Inr q \<longrightarrow>
      live_count (snd (run ops q)) \<le> unat c - 1
      \<and> unat (queue_size (snd (run ops q))) = live_count (snd (run ops q))"
  proof
    assume "SPSCQueue_init sizeof_T operator_new c = Inr q"
    then have "queue_inv q" "capacity q = c"
      using init_inv by blast+
    with run_preserves_inv [of q ops]
    have inv: "queue_inv (snd (run ops q))" and cap: "capacity (snd (run ops q)) = c"
      by simp_all
    from inv_live_count [OF inv] inv_queue_size [OF inv] cap
    show "live_count (snd (run ops q)) \<le> unat c - 1
      \<and> unat (queue_size (snd (run ops q))) = live_count (snd (run ops q))"
      by simp
  qed
next
  show "operator_new (4 * sizeof_T) \<longrightarrow>
        (\<exists>q0. SPSCQueue_init sizeof_T operator_new 4 = Inr q0
          \<and> fst (run [Push x1, Push x2, Push x3, Push x4] q0)
              = [PushResult True, PushResult True, PushResult True, PushResult False]
          \<and> live_count (snd (run [Push x1, Push x2, Push x3, Push x4] q0)) = 3)"
    by (simp add: SPSCQueue_init_def push_def live_count_def replicate_4)
qed

theorem live_elements_bound_witness:
  "SPSCQueue_init 8 heap_4GiB 4
     = Inr \<lparr> capacity = 4, buffer = [None, None, None, None :: nat option],
             storage = 32, head = 0, tail = 0 \<rparr>
   \<and> (live_count (snd (run [Push 10, Push 20, Pop, Push 30, Push 40, Push 50, Pop]
          \<lparr> capacity = 4, buffer = [None, None, None, None :: nat option],
            storage = 32, head = 0, tail = 0 \<rparr>))
         \<le> unat (4 :: 64 word) - 1
      \<and> unat (queue_size (snd (run [Push 10, Push 20, Pop, Push 30, Push 40, Push 50, Pop]
          \<lparr> capacity = 4, buffer = [None, None, None, None :: nat option],
            storage = 32, head = 0, tail = 0 \<rparr>)))
         = live_count (snd (run [Push 10, Push 20, Pop, Push 30, Push 40, Push 50, Pop]
          \<lparr> capacity = 4, buffer = [None, None, None, None :: nat option],
            storage = 32, head = 0, tail = 0 \<rparr>)))
   \<and> heap_4GiB (4 * 8)
   \<and> (\<exists>q0 :: nat SPSCQueue. SPSCQueue_init 8 heap_4GiB 4 = Inr q0
          \<and> fst (run [Push 1, Push 2, Push 3, Push 4] q0)
              = [PushResult True, PushResult True, PushResult True, PushResult False]
          \<and> live_count (snd (run [Push 1, Push 2, Push 3, Push 4] q0)) = 3)"
proof -
  have h: "SPSCQueue_init 8 heap_4GiB 4
     = Inr \<lparr> capacity = 4, buffer = [None, None, None, None :: nat option],
             storage = 32, head = 0, tail = 0 \<rparr>"
    by (simp add: SPSCQueue_init_def heap_4GiB_def replicate_4)
  have a: "heap_4GiB (4 * 8)"
    by (simp add: heap_4GiB_def)
  note t = live_elements_bound
    [of 8 heap_4GiB 4
      "\<lparr> capacity = 4, buffer = [None, None, None, None :: nat option],
         storage = 32, head = 0, tail = 0 \<rparr>"
      "[Push 10, Push 20, Pop, Push 30, Push 40, Push 50, Pop]" 1 2 3 4]
  note b = mp [OF conjunct1 [OF t] h]
  note e = mp [OF conjunct2 [OF t] a]
  show ?thesis by (rule conjI [OF h conjI [OF b conjI [OF a e]]])
qed

section \<open>The latency ring\<close>

lemma MAX_SAMPLES_pos: "0 < MAX_SAMPLES"
  by (simp add: MAX_SAMPLES_def)

lemma recordLatencies_snoc:
  "recordLatencies st (xs @ [x]) = recordLatency (recordLatencies st xs) x"
  by (simp add: recordLatencies_def)

lemma ring_state:
  assumes "length xs < 2 ^ 64"
  shows "length (timestamps_RDTSC (recordLatencies initial_LatencyState xs)) = MAX_SAMPLES
         \<and> s_idx (recordLatencies initial_LatencyState xs) = of_nat (length xs)
         \<and> (\<forall>i < length xs. length xs - i \<le> MAX_SAMPLES \<longrightarrow>
               timestamps_RDTSC (recordLatencies initial_LatencyState xs) ! (i mod MAX_SAMPLES) = xs ! i)"
  using assms
proof (induction xs rule: rev_induct)
  case Nil
  show ?case by (simp add: recordLatencies_def initial_LatencyState_def)
next
  case (snoc x xs)
  let ?st = "recordLatencies initial_LatencyState xs"
  let ?n = "length xs"
  from snoc.prems have n: "?n < 2 ^ 64" by simp
  from snoc.IH [OF n]
  have len: "length (timestamps_RDTSC ?st) = MAX_SAMPLES"
    and idx: "s_idx ?st = of_nat ?n"
    and slots: "\<And>i. i < ?n \<Longrightarrow> ?n - i \<le> MAX_SAMPLES \<Longrightarrow>
                  timestamps_RDTSC ?st ! (i mod MAX_SAMPLES) = xs ! i"
    by simp_all
  have un: "unat (of_nat ?n :: 64 word) = ?n"
    using n by (simp add: unat_of_nat)
  have st': "recordLatencies initial_LatencyState (xs @ [x])
       = \<lparr> timestamps_RDTSC = (timestamps_RDTSC ?st)[?n mod MAX_SAMPLES := x],
           s_idx = of_nat ?n + 1 \<rparr>"
    by (simp add: recordLatencies_snoc recordLatency_def idx un)
  have slots': "timestamps_RDTSC (recordLatencies initial_LatencyState (xs @ [x])) ! (i mod MAX_SAMPLES)
                  = (xs @ [x]) ! i"
    if i: "i < length (xs @ [x])" and near: "length (xs @ [x]) - i \<le> MAX_SAMPLES" for i
  proof (cases "i = ?n")
    case True
    then show ?thesis
      using len MAX_SAMPLES_pos by (simp add: st')
  next
    case False
    with i have lt: "i < ?n" by simp
    from near lt have near': "?n - i < MAX_SAMPLES" by simp
    have "i mod MAX_SAMPLES \<noteq> ?n mod MAX_SAMPLES"
    proof
      assume "i mod MAX_SAMPLES = ?n mod MAX_SAMPLES"
      then have "MAX_SAMPLES dvd ?n - i"
        using lt mod_eq_dvd_iff_nat [of i ?n MAX_SAMPLES] by auto
      moreover have "0 < ?n - i" using lt by simp
      ultimately show False
        using near' by (meson nat_dvd_not_less)
    qed
    then have "timestamps_RDTSC (recordLatencies initial_LatencyState (xs @ [x])) ! (i mod MAX_SAMPLES)
                = timestamps_RDTSC ?st ! (i mod MAX_SAMPLES)"
      by (simp add: st')
    also have "\<dots> = xs ! i"
      using slots [OF lt] near' by simp
    finally show ?thesis
      using lt by (simp add: nth_append)
  qed
  show ?case
    using slots' by (simp add: st' len)
qed

lemma length_numbered_samples: "length (numbered_samples n) = n"
  by (simp add: numbered_samples_def)

lemma nth_numbered_samples: "i < n \<Longrightarrow> numbered_samples n ! i = of_nat i"
  by (simp add: numbered_samples_def)

text \<open>
  C7 as stated does not hold. Record the 1000001 samples numbered 0 to 1000000 into the
  zeroed ring of 1000000 slots: with \<open>N = 1000001\<close>, \<open>C = 1000000\<close> and \<open>k = 0\<close> the claim
  puts sample number 1 in slot 0, but slot 0 holds sample number 1000000, the one written
  last. The ring is not rotated: a sample stays in the slot its own number selects.
\<close>

theorem ring_slot_not_shifted:
  "timestamps_RDTSC (recordLatencies initial_LatencyState (numbered_samples 1000001)) ! 0 = 1000000
   \<and> numbered_samples 1000001 ! (1000001 - MAX_SAMPLES + 0) = 1
   \<and> timestamps_RDTSC (recordLatencies initial_LatencyState (numbered_samples 1000001)) ! 0
       \<noteq> numbered_samples 1000001 ! (1000001 - MAX_SAMPLES + 0)"
proof -
  let ?xs = "numbered_samples 1000001"
  have len: "length ?xs = 1000001"
    by (simp add: length_numbered_samples)
  have "length ?xs < 2 ^ 64"
    by (simp add: len)
  from ring_state [OF this]
  have "\<forall>i < length ?xs. length ?xs - i \<le> MAX_SAMPLES \<longrightarrow>
          timestamps_RDTSC (recordLatencies initial_LatencyState ?xs) ! (i mod MAX_SAMPLES) = ?xs ! i"
    by simp
  then have "length ?xs - 1000000 \<le> MAX_SAMPLES \<longrightarrow>
          timestamps_RDTSC (recordLatencies initial_LatencyState ?xs) ! (1000000 mod MAX_SAMPLES)
            = ?xs ! 1000000"
    using len by (simp only: ) simp
  moreover have "1000000 mod MAX_SAMPLES = 0" "length ?xs - 1000000 \<le> MAX_SAMPLES"
    by (simp_all add: MAX_SAMPLES_def len)
  ultimately have slot: "timestamps_RDTSC (recordLatencies initial_LatencyState ?xs) ! 0 = ?xs ! 1000000"
    by simp
  have a: "?xs ! 1000000 = 1000000"
    by (simp add: nth_numbered_samples)
  have "1000001 - MAX_SAMPLES + 0 = 1"
    by (simp add: MAX_SAMPLES_def)
  then have b: "?xs ! (1000001 - MAX_SAMPLES + 0) = 1"
    by (simp add: nth_numbered_samples)
  show ?thesis
    unfolding b unfolding slot a by simp
qed

text \<open>
  C7, amended. After more samples than the ring has slots (and fewer than \<open>2 ^ 64\<close>, the
  range of the write index), the ring holds the last \<open>MAX_SAMPLES\<close> samples, each in the
  slot given by its number modulo \<open>MAX_SAMPLES\<close>: for every \<open>k\<close> below \<open>MAX_SAMPLES\<close>, sample
  number \<open>N - MAX_SAMPLES + k\<close> is in slot \<open>(N - MAX_SAMPLES + k) mod MAX_SAMPLES\<close>. So each
  new sample has replaced the oldest one.
\<close>

theorem ring_overwrite:
  assumes "MAX_SAMPLES < length xs" and "length xs < 2 ^ 64" and "k < MAX_SAMPLES"
  shows "timestamps_RDTSC (recordLatencies initial_LatencyState xs)
           ! ((length xs - MAX_SAMPLES + k) mod MAX_SAMPLES)
         = xs ! (length xs - MAX_SAMPLES + k)"
proof -
  let ?i = "length xs - MAX_SAMPLES + k"
  have "?i < length xs" "length xs - ?i \<le> MAX_SAMPLES"
    using assms(1,3) by simp_all
  with ring_state [OF assms(2)] show ?thesis by blast
qed

theorem ring_overwrite_witness:
  "MAX_SAMPLES < length (numbered_samples 1000002)
   \<and> length (numbered_samples 1000002) < 2 ^ 64
   \<and> 5 < MAX_SAMPLES
   \<and> timestamps_RDTSC (recordLatencies initial_LatencyState (numbered_samples 1000002)) ! 7 = 7"
proof -
  have h1: "MAX_SAMPLES < length (numbered_samples 1000002)"
    by (simp add: length_numbered_samples MAX_SAMPLES_def)
  have h2: "length (numbered_samples 1000002) < 2 ^ 64"
    by (simp add: length_numbered_samples)
  have h3: "5 < MAX_SAMPLES"
    by (simp add: MAX_SAMPLES_def)
  have i: "length (numbered_samples 1000002) - MAX_SAMPLES + 5 = 7"
    by (simp add: length_numbered_samples MAX_SAMPLES_def)
  have m: "7 mod MAX_SAMPLES = 7"
    by (simp add: MAX_SAMPLES_def)
  have v: "numbered_samples 1000002 ! 7 = 7"
    by (simp add: nth_numbered_samples)
  from ring_overwrite [OF h1 h2 h3]
  have "timestamps_RDTSC (recordLatencies initial_LatencyState (numbered_samples 1000002)) ! 7 = 7"
    unfolding i m v .
  with h1 h2 h3 show ?thesis by simp
qed

section \<open>Rounding to double precision\<close>

lemma bitlength_pos: "0 < n \<Longrightarrow> 0 < bitlength n"
  by (subst bitlength.simps) simp

lemma bitlength_bounds:
  "0 < n \<Longrightarrow> 2 ^ (bitlength n - 1) \<le> n \<and> n < 2 ^ bitlength n"
proof (induction n rule: bitlength.induct)
  case (1 n)
  show ?case
  proof (cases "n div 2 = 0")
    case True
    with "1.prems" have "n = 1" by (simp add: div_eq_0_iff)
    then show ?thesis
      by (subst (1 2) bitlength.simps) (simp add: bitlength.simps [of 0])
  next
    case False
    then have pos: "0 < n div 2" by simp
    from "1.IH" [OF _ pos] "1.prems"
    have ih: "2 ^ (bitlength (n div 2) - 1) \<le> n div 2" "n div 2 < 2 ^ bitlength (n div 2)"
      by simp_all
    have bl: "bitlength n = Suc (bitlength (n div 2))"
      using "1.prems" by (subst bitlength.simps) simp
    from bitlength_pos [OF pos] obtain k where k: "bitlength (n div 2) = Suc k"
      by (cases "bitlength (n div 2)") auto
    from ih have "2 * 2 ^ k \<le> 2 * (n div 2)" "2 * (n div 2) + 1 < 2 * 2 ^ bitlength (n div 2)"
      by (simp_all add: k)
    moreover have "2 * (n div 2) \<le> n" "n \<le> 2 * (n div 2) + 1" by presburger+
    ultimately show ?thesis
      by (simp add: bl k)
  qed
qed

lemma pow2_le_of_nat:
  assumes "2 ^ k \<le> n"
  shows "(2::rat) ^ k \<le> of_nat n"
proof -
  from assms have "(of_nat (2 ^ k) :: rat) \<le> of_nat n" by (rule of_nat_mono)
  then show ?thesis by simp
qed

lemma of_nat_Suc_le_pow2:
  assumes "n + 1 \<le> 2 ^ k"
  shows "(of_nat n :: rat) + 1 \<le> 2 ^ k"
proof -
  from assms have "(of_nat (n + 1) :: rat) \<le> of_nat (2 ^ k)" by (rule of_nat_mono)
  then show ?thesis by simp
qed

lemma binade_bounds:
  assumes "0 < x"
  shows "2 powi binade x \<le> x \<and> x < 2 powi (binade x + 1)"
proof (cases "1 \<le> x")
  case True
  define n where "n = nat \<lfloor>x\<rfloor>"
  have n1: "0 < n" using True by (simp add: n_def)
  have "0 \<le> \<lfloor>x\<rfloor>" using True by simp
  then have "(of_nat n :: rat) = of_int \<lfloor>x\<rfloor>"
    by (simp add: n_def)
  moreover have "of_int \<lfloor>x\<rfloor> \<le> x" "x < of_int \<lfloor>x\<rfloor> + 1"
    by linarith+
  ultimately have nx: "of_nat n \<le> x" "x < of_nat n + 1"
    by simp_all
  from bitlength_pos [OF n1] obtain k where k: "bitlength n = Suc k"
    by (cases "bitlength n") auto
  from bitlength_bounds [OF n1] have b: "2 ^ k \<le> n" "n + 1 \<le> 2 ^ Suc k"
    by (simp_all add: k)
  have e: "binade x = int k"
    using True by (simp add: binade_def n_def [symmetric] k)
  have A: "(2::rat) ^ k \<le> of_nat n"
    using b(1) by (rule pow2_le_of_nat)
  have B: "(of_nat n :: rat) + 1 \<le> 2 ^ Suc k"
    using b(2) by (rule of_nat_Suc_le_pow2)
  have lo: "(2::rat) ^ k \<le> x"
    using A nx(1) by (rule order_trans)
  have hi: "x < (2::rat) ^ Suc k"
    using nx(2) B by (rule less_le_trans)
  have "(2::rat) powi (int k + 1) = 2 ^ Suc k"
    by (simp add: power_int_add)
  with lo hi show ?thesis
    unfolding e by simp
next
  case False
  define n where "n = nat (\<lceil>1 / x\<rceil> - 1)"
  from False assms have inv1: "1 < 1 / x" by simp
  then have c2: "2 \<le> \<lceil>1 / x\<rceil>" by linarith
  then have n1: "0 < n" by (simp add: n_def)
  have "0 \<le> \<lceil>1 / x\<rceil> - 1"
    using c2 by linarith
  then have "(of_nat n :: rat) = of_int (\<lceil>1 / x\<rceil> - 1)"
    unfolding n_def by (rule of_nat_nat)
  then have n_eq: "(of_nat n :: rat) = of_int \<lceil>1 / x\<rceil> - 1"
    by simp
  have "of_int \<lceil>1 / x\<rceil> - 1 < 1 / x" "1 / x \<le> of_int \<lceil>1 / x\<rceil>"
    by linarith+
  then have nx: "of_nat n < 1 / x" "1 / x \<le> of_nat n + 1"
    unfolding n_eq by simp_all
  from bitlength_pos [OF n1] obtain k where k: "bitlength n = Suc k"
    by (cases "bitlength n") auto
  from bitlength_bounds [OF n1] have b: "2 ^ k \<le> n" "n + 1 \<le> 2 ^ Suc k"
    by (simp_all add: k)
  have e: "binade x = - int (Suc k)"
    using False by (simp add: binade_def n_def [symmetric] k)
  have A: "(2::rat) ^ k \<le> of_nat n"
    using b(1) by (rule pow2_le_of_nat)
  have lo: "(2::rat) ^ k < 1 / x"
    using A nx(1) by (rule le_less_trans)
  have B: "(of_nat n :: rat) + 1 \<le> 2 ^ Suc k"
    using b(2) by (rule of_nat_Suc_le_pow2)
  have hi: "1 / x \<le> (2::rat) ^ Suc k"
    using nx(2) B by (rule order_trans)
  have "1 \<le> 2 ^ Suc k * x"
    using hi assms by (simp only: pos_divide_le_eq mult.commute)
  then have "1 / 2 ^ Suc k \<le> x"
    by (simp only: pos_divide_le_eq zero_less_power zero_less_numeral mult.commute)
  moreover have "2 ^ k * x < 1"
    using lo assms by (simp only: pos_less_divide_eq mult.commute)
  then have "x < 1 / 2 ^ k"
    by (simp only: pos_less_divide_eq zero_less_power zero_less_numeral mult.commute)
  moreover have "(2::rat) powi (- int (Suc k)) = 1 / 2 ^ Suc k"
    by (simp only: power_int_minus_divide power_int_of_nat)
  moreover have "- int (Suc k) + 1 = - int k"
    by simp
  then have "(2::rat) powi (- int (Suc k) + 1) = 1 / 2 ^ k"
    by (simp only: power_int_minus_divide power_int_of_nat)
  ultimately show ?thesis
    unfolding e by (simp only: simp_thms)
qed

lemma binade_unique:
  assumes "2 powi e \<le> x" and "x < 2 powi (e + 1)"
  shows "binade x = e"
proof -
  have pos: "0 < x"
    using assms(1) by (rule less_le_trans [rotated]) simp
  from binade_bounds [OF pos]
  have b: "2 powi binade x \<le> x" "x < 2 powi (binade x + 1)" by simp_all
  have "(2::rat) powi e < 2 powi (binade x + 1)"
    using assms(1) b(2) by simp
  then have "e < binade x + 1"
    using power_int_increasing [of "binade x + 1" e "2::rat"] by (cases "e < binade x + 1") auto
  moreover have "(2::rat) powi binade x < 2 powi (e + 1)"
    using assms(2) b(1) by simp
  then have "binade x < e + 1"
    using power_int_increasing [of "e + 1" "binade x" "2::rat"] by (cases "binade x < e + 1") auto
  ultimately show ?thesis by simp
qed

lemma round_half_even_near:
  assumes "\<bar>of_int z - q\<bar> < 1 / 2"
  shows "round_half_even q = z"
proof (cases "of_int z \<le> q")
  case True
  then have "z \<le> \<lfloor>q\<rfloor>" by (simp add: le_floor_iff)
  moreover have "of_int \<lfloor>q\<rfloor> \<le> q" by simp
  with assms True have "of_int \<lfloor>q\<rfloor> - (of_int z :: rat) < 1" by linarith
  then have "\<lfloor>q\<rfloor> - z < 1" by (metis of_int_diff of_int_less_1_iff)
  ultimately have f: "\<lfloor>q\<rfloor> = z" by simp
  with assms True show ?thesis
    by (simp add: round_half_even_def Let_def)
next
  case False
  then have zq: "q < of_int z" by simp
  then have "\<lfloor>q\<rfloor> < z" by (simp add: floor_less_iff)
  moreover have "q < of_int \<lfloor>q\<rfloor> + 1" by linarith
  with assms zq have "(of_int z :: rat) - of_int \<lfloor>q\<rfloor> < 2" by linarith
  then have "z - \<lfloor>q\<rfloor> < 2"
    by (metis of_int_diff of_int_less_iff of_int_numeral)
  ultimately have f: "\<lfloor>q\<rfloor> = z - 1" by simp
  have "1 / 2 < q - of_int (z - 1)"
    using assms zq by simp
  then show ?thesis
    by (simp add: round_half_even_def Let_def f)
qed

lemma round_half_even_error:
  "\<bar>of_int (round_half_even q) - q\<bar> \<le> 1 / 2"
proof -
  have "of_int \<lfloor>q\<rfloor> \<le> q" "q < of_int \<lfloor>q\<rfloor> + 1" by linarith+
  then show ?thesis
    unfolding round_half_even_def Let_def
    by (cases "q - of_int \<lfloor>q\<rfloor> < 1 / 2"; cases "1 / 2 < q - of_int \<lfloor>q\<rfloor>") simp_all
qed

lemma round_double_pos:
  "0 < x \<Longrightarrow>
   round_double x = of_int (round_half_even (x / 2 powi (binade x - 52))) * 2 powi (binade x - 52)"
  by (simp add: round_double_def Let_def)

lemma round_double_near:
  assumes "0 < x"
    and "y = of_int z * 2 powi (binade x - 52)"
    and "\<bar>y - x\<bar> < 2 powi (binade x - 53)"
  shows "round_double x = y"
proof -
  define s where "s = binade x - 52"
  have p: "(0::rat) < 2 powi s" by simp
  have half: "(2::rat) powi (binade x - 53) = 2 powi s / 2"
    by (simp add: s_def power_int_diff)
  have "\<bar>of_int z - x / 2 powi s\<bar> = \<bar>y - x\<bar> / 2 powi s"
    using p by (simp add: assms(2) s_def [symmetric] field_simps abs_mult abs_divide)
  also have "\<dots> < (2 powi s / 2) / 2 powi s"
    using assms(3) p unfolding half by (simp add: divide_strict_right_mono)
  also have "\<dots> = 1 / 2" by simp
  finally have "round_half_even (x / 2 powi s) = z"
    by (rule round_half_even_near)
  then show ?thesis
    by (simp add: round_double_pos [OF assms(1)] s_def [symmetric] assms(2))
qed

lemma round_double_error:
  assumes "0 < x"
  shows "\<bar>round_double x - x\<bar> \<le> 2 powi (binade x - 53)"
proof -
  define s where "s = binade x - 52"
  define q where "q = x / 2 powi s"
  have p: "(0::rat) < 2 powi s" by simp
  have x: "x = q * 2 powi s" by (simp add: q_def)
  have "round_double x = of_int (round_half_even q) * 2 powi s"
    by (simp only: round_double_pos [OF assms] s_def q_def)
  moreover have "(of_int (round_half_even q) - q) * 2 powi s
                   = of_int (round_half_even q) * 2 powi s - q * 2 powi s"
    by (rule left_diff_distrib)
  ultimately have "round_double x - x = (of_int (round_half_even q) - q) * 2 powi s"
    using x by (simp only: )
  then have "\<bar>round_double x - x\<bar> = \<bar>of_int (round_half_even q) - q\<bar> * 2 powi s"
    using p by (simp only: abs_mult abs_of_pos)
  also have "\<dots> \<le> (1 / 2) * 2 powi s"
    using round_half_even_error [of q] p by (simp only: mult_right_mono less_imp_le)
  also have "\<dots> = 2 powi (binade x - 53)"
    by (simp add: s_def power_int_diff)
  finally show ?thesis .
qed

lemma pow2_scale:
  assumes "e \<le> 52"
  shows "of_nat m = of_int (int m * 2 ^ (52 - e)) * (2::rat) powi (int e - 52)"
proof -
  have "int e - 52 = - int (52 - e)" using assms by simp
  then have "(2::rat) powi (int e - 52) = 1 / 2 ^ (52 - e)"
    by (simp only: power_int_minus_divide power_int_of_nat)
  then show ?thesis by simp
qed

lemma round_double_below_nat:
  assumes "(2::rat) ^ e \<le> x" and "x < of_nat m" and "m \<le> 2 ^ Suc e" and "e \<le> 52"
    and "of_nat m - x < 2 powi (int e - 53)"
  shows "round_double x = of_nat m"
proof -
  have pos: "0 < x"
    using assms(1) by (rule less_le_trans [rotated]) simp
  have "(of_nat m :: rat) \<le> of_nat (2 ^ Suc e)"
    using assms(3) by (rule of_nat_mono)
  then have "(of_nat m :: rat) \<le> 2 powi (int e + 1)"
    by (simp add: power_int_add)
  with assms(2) have "x < 2 powi (int e + 1)" by (rule less_le_trans)
  moreover have "2 powi (int e) \<le> x" using assms(1) by simp
  ultimately have b: "binade x = int e" by (intro binade_unique)
  show ?thesis
  proof (rule round_double_near [OF pos])
    show "of_nat m = of_int (int m * 2 ^ (52 - e)) * (2::rat) powi (binade x - 52)"
      unfolding b using assms(4) by (rule pow2_scale)
    show "\<bar>of_nat m - x\<bar> < 2 powi (binade x - 53)"
      unfolding b using assms(2,5) by simp
  qed
qed

lemma round_double_of_nat:
  assumes "k < 2 ^ 53"
  shows "round_double (of_nat k) = of_nat k"
proof (cases "k = 0")
  case True
  then show ?thesis by (simp add: round_double_def)
next
  case False
  then have pos: "(0::rat) < of_nat k" by simp
  from False have one: "(1::rat) \<le> of_nat k" by simp
  then have "binade (of_nat k) = int (bitlength (nat \<lfloor>of_nat k :: rat\<rfloor>)) - 1"
    by (simp add: binade_def)
  moreover have "0 < bitlength (nat \<lfloor>of_nat k :: rat\<rfloor>)"
    using False by (intro bitlength_pos) simp
  ultimately obtain e where e: "binade (of_nat k) = int e"
    by (cases "bitlength (nat \<lfloor>of_nat k :: rat\<rfloor>)") simp_all
  from binade_bounds [OF pos] have "(2::rat) powi int e \<le> of_nat k"
    by (simp add: e)
  then have "(2::rat) ^ e \<le> of_nat k" by simp
  also have "(of_nat k :: rat) < of_nat (2 ^ 53)"
    using assms by (simp only: of_nat_less_iff)
  finally have "(2::rat) ^ e < 2 ^ 53" by simp
  then have "e < 53"
    by (simp only: power_strict_increasing_iff one_less_numeral_iff semiring_norm)
  then have e52: "e \<le> 52" by simp
  show ?thesis
  proof (rule round_double_near [OF pos])
    show "of_nat k = of_int (int k * 2 ^ (52 - e)) * (2::rat) powi (binade (of_nat k) - 52)"
      unfolding e using e52 by (rule pow2_scale)
    show "\<bar>of_nat k - of_nat k\<bar> < (2::rat) powi (binade (of_nat k) - 53)"
      by simp
  qed
qed

lemma binade_less:
  assumes "0 < x" and "x < 2 powi e"
  shows "binade x < e"
proof (rule ccontr)
  assume "\<not> binade x < e"
  then have "e \<le> binade x" by simp
  then have "(2::rat) powi e \<le> 2 powi binade x"
    by (intro power_int_increasing) simp_all
  also have "\<dots> \<le> x" using binade_bounds [OF assms(1)] by simp
  finally show False using assms(2) by simp
qed

lemma round_double_error_small:
  assumes "0 < x" and "x < 2 ^ 20"
  shows "\<bar>round_double x - x\<bar> \<le> 1 / 2 ^ 34"
proof -
  have "x < 2 powi 20" using assms(2) by simp
  with assms(1) have "binade x < 20" by (rule binade_less)
  then have "binade x - 53 \<le> - 34" by simp
  then have "(2::rat) powi (binade x - 53) \<le> 2 powi (- 34)"
    by (intro power_int_increasing) simp_all
  also have "\<dots> = 1 / 2 ^ 34"
    by (simp add: power_int_minus_divide)
  finally show ?thesis
    using round_double_error [OF assms(1)] by simp
qed

lemma three_not_dvd_pow2: "\<not> 3 dvd (2::nat) ^ e"
proof (induction e)
  case 0
  show ?case by simp
next
  case (Suc e)
  have "coprime (3::nat) 2" by (simp add: coprime_Suc_0_right numeral_3_eq_3 numeral_2_eq_2 coprime_Suc_left_nat)
  then have "(3::nat) dvd 2 * 2 ^ e \<longleftrightarrow> 3 dvd (2::nat) ^ e"
    by (rule coprime_dvd_mult_right_iff)
  with Suc show ?case by simp
qed

lemma not_pow2_of_3_dvd:
  assumes "3 dvd (m::nat)"
  shows "m \<noteq> 2 ^ e"
  using assms three_not_dvd_pow2 [of e] by auto

lemma floor_between:
  assumes "of_nat m \<le> (y::rat)" and "y < of_nat m + 1"
  shows "double_to_size_t y = m"
proof -
  have "\<lfloor>y\<rfloor> = int m"
    using assms by (intro floor_unique) simp_all
  then show ?thesis by (simp add: double_to_size_t_def)
qed

lemma quantile_index_exact:
  fixes n M num den m :: nat
  assumes M: "den * M + 8 = num * 2 ^ 53"
    and n: "0 < n" "n \<le> 1000000"
    and num: "16 \<le> num" "num < den" "3 dvd num" "coprime 3 den"
    and m: "num * n = den * m"
  shows "round_double (of_nat n * (of_nat M / 2 ^ 53)) = of_nat m"
proof -
  define x :: rat where "x = of_nat n * (of_nat M / 2 ^ 53)"
  have mpos: "0 < m"
    using m n(1) num(1) by (cases "m = 0") simp_all
  have "3 dvd num * n" using num(3) by simp
  then have "3 dvd den * m" by (simp only: m)
  then have "3 dvd m"
    using coprime_dvd_mult_right_iff [OF num(4), of m] by simp
  have "den * m \<le> den * n"
    using num(2) by (simp add: m [symmetric])
  then have mn: "m \<le> n" using num(1,2) by simp
  from bitlength_pos [OF mpos] obtain e where e: "bitlength m = Suc e"
    by (cases "bitlength m") auto
  from bitlength_bounds [OF mpos] have b: "2 ^ e \<le> m" "m < 2 ^ Suc e"
    by (simp_all add: e)
  from \<open>3 dvd m\<close> have "m \<noteq> 2 ^ e" by (rule not_pow2_of_3_dvd)
  with b(1) have b1: "2 ^ e + 1 \<le> m" by simp
  have "(2::nat) ^ e < 2 ^ 20"
    using b(1) mn n(2) by simp
  then have "e < 20"
    by (simp only: power_strict_increasing_iff one_less_numeral_iff semiring_norm)
  then have e52: "e \<le> 52" by simp
  \<comment> \<open>the exact product, just below \<open>m\<close>\<close>
  have M': "(of_nat den :: rat) * of_nat M = of_nat num * 2 ^ 53 - 8"
  proof -
    have "(of_nat (den * M + 8) :: rat) = of_nat (num * 2 ^ 53)"
      by (simp only: M)
    then show ?thesis by simp
  qed
  have m': "(of_nat num :: rat) * of_nat n = of_nat den * of_nat m"
  proof -
    have "(of_nat (num * n) :: rat) = of_nat (den * m)" by (simp only: m)
    then show ?thesis by simp
  qed
  have dpos: "(0::rat) < of_nat den" using num(1,2) by simp
  have npos: "(0::rat) < of_nat num" using num(1) by simp
  have "of_nat den * (of_nat num * x) = of_nat num * of_nat n * (of_nat den * of_nat M) / 2 ^ 53"
    by (simp add: x_def)
  also have "\<dots> = of_nat den * of_nat m * (of_nat num * 2 ^ 53 - 8) / 2 ^ 53"
    by (simp only: M' m')
  also have "\<dots> = of_nat den * (of_nat num * of_nat m - 8 * of_nat m / 2 ^ 53)"
    by (simp add: field_simps)
  finally have "of_nat num * x = of_nat num * of_nat m - 8 * of_nat m / 2 ^ 53"
    using dpos by simp
  then have gap: "of_nat num * (of_nat m - x) = 8 * of_nat m / 2 ^ 53"
    by (simp add: right_diff_distrib)
  have mlt: "(of_nat m :: rat) < 2 * 2 ^ e"
  proof -
    have "(of_nat m :: rat) < of_nat (2 ^ Suc e)" using b(2) by (simp only: of_nat_less_iff)
    then show ?thesis by simp
  qed
  have mge: "(2::rat) ^ e + 1 \<le> of_nat m"
  proof -
    have "(of_nat (2 ^ e + 1) :: rat) \<le> of_nat m" using b1 by (simp only: of_nat_le_iff)
    then show ?thesis by simp
  qed
  have "16 * (of_nat m - x) \<le> of_nat num * (of_nat m - x)"
  proof (rule mult_right_mono)
    show "(16::rat) \<le> of_nat num" using num(1) by simp
    have "0 \<le> of_nat num * (of_nat m - x)" unfolding gap by simp
    then show "0 \<le> of_nat m - x" using npos by (simp add: zero_le_mult_iff)
  qed
  then have "16 * (of_nat m - x) \<le> 8 * of_nat m / 2 ^ 53"
    by (simp only: gap)
  also have "\<dots> < 8 * (2 * 2 ^ e) / 2 ^ 53"
    using mlt by (simp add: divide_strict_right_mono)
  finally have small: "of_nat m - x < 2 ^ e / 2 ^ 53"
    by simp
  have gpos: "0 < of_nat m - x"
  proof -
    have "0 < of_nat num * (of_nat m - x)" unfolding gap using mpos by simp
    then show ?thesis using npos by (simp add: zero_less_mult_iff)
  qed
  have "(2::rat) ^ e / 2 ^ 53 \<le> 2 ^ e"
    by (simp add: field_simps)
  have lo: "(2::rat) ^ e \<le> x"
  proof -
    have "(2::rat) ^ e / 2 ^ 53 \<le> 1 * 2 ^ e / 1" by (simp add: field_simps)
    have "(2::rat) ^ e \<le> 2 ^ 20" using \<open>e < 20\<close> by (intro power_increasing) simp_all
    then have "(2::rat) ^ e / 2 ^ 53 < 1" by simp
    with small mge show ?thesis by linarith
  qed
  have p: "(2::rat) powi (int e - 53) = 2 ^ e / 2 ^ 53"
    by (simp add: power_int_diff)
  have "round_double x = of_nat m"
  proof (rule round_double_below_nat [OF lo _ _ e52])
    show "x < of_nat m" using gpos by simp
    show "m \<le> 2 ^ Suc e" using b(2) by simp
    show "of_nat m - x < 2 powi (int e - 53)" unfolding p by (rule small)
  qed
  then show ?thesis by (simp only: x_def)
qed

lemma quantile_index_inexact:
  fixes n M num den m r :: nat
  assumes M: "den * M + 8 = num * 2 ^ 53"
    and n: "0 < n" "n \<le> 1000000"
    and num: "num < den" "den \<le> 1000"
    and m: "num * n = den * m + r" and r: "0 < r" "r < den"
  shows "double_to_size_t (round_double (of_nat n * (of_nat M / 2 ^ 53))) = m"
proof -
  define x :: rat where "x = of_nat n * (of_nat M / 2 ^ 53)"
  define D :: rat where "D = of_nat den"
  define R where "R = round_double x"
  have dpos: "0 < D" and d1: "1 \<le> D" and d1000: "D \<le> 1000"
    using r num(2) by (simp_all add: D_def)
  have M': "D * of_nat M = of_nat num * 2 ^ 53 - 8"
  proof -
    have "(of_nat (den * M + 8) :: rat) = of_nat (num * 2 ^ 53)"
      by (simp only: M)
    then show ?thesis by (simp add: D_def)
  qed
  have m': "(of_nat num :: rat) * of_nat n = D * of_nat m + of_nat r"
  proof -
    have "(of_nat (num * n) :: rat) = of_nat (den * m + r)" by (simp only: m)
    then show ?thesis by (simp add: D_def)
  qed
  have "D * x = of_nat n * (D * of_nat M) / 2 ^ 53"
    by (simp add: x_def)
  also have "\<dots> = of_nat n * (of_nat num * 2 ^ 53 - 8) / 2 ^ 53"
    by (simp only: M')
  also have "\<dots> = of_nat num * of_nat n - 8 * of_nat n / 2 ^ 53"
    by (simp add: field_simps)
  finally have Dx: "D * x = D * of_nat m + of_nat r - 8 * of_nat n / 2 ^ 53"
    by (simp only: m')
  have "(of_nat n :: rat) \<le> 1000000" using n(2) by simp
  then have delta: "8 * of_nat n / 2 ^ 53 \<le> (1 / 2 ^ 30 :: rat)"
    by simp
  have dpos': "(0::rat) < 8 * of_nat n / 2 ^ 53" using n(1) by simp
  have r1: "(1::rat) \<le> of_nat r" using r(1) by simp
  have r2: "(of_nat r :: rat) \<le> D - 1"
  proof -
    have "(of_nat (r + 1) :: rat) \<le> of_nat den" using r(2) by (simp only: of_nat_le_iff)
    then show ?thesis by (simp add: D_def)
  qed
  \<comment> \<open>the exact product lies strictly between \<open>m\<close> and \<open>m + 1\<close>\<close>
  have lo: "1 - 1 / 2 ^ 30 \<le> D * (x - of_nat m)"
    using Dx delta r1 by (simp add: right_diff_distrib)
  have hi: "D * (x - of_nat m) < D - 1"
    using Dx dpos' r2 by (simp add: right_diff_distrib)
  have "0 < D * (x - of_nat m)" using lo by simp
  then have xm: "of_nat m < x" using dpos by (simp add: zero_less_mult_iff)
  have "D * (x - of_nat m) < D * 1" using hi by simp
  then have xm1: "x < of_nat m + 1" using dpos by (simp only: mult_less_cancel_left_pos)
  have xpos: "0 < x" using xm by (rule le_less_trans [rotated]) simp
  have "den * m \<le> num * n" by (simp add: m)
  also have "\<dots> \<le> den * n" using num(1) by simp
  finally have "m \<le> n" using r(2) by simp
  then have "(of_nat m :: rat) + 1 \<le> 1000001" using n(2) by simp
  with xm1 have "x < 2 ^ 20" by simp
  from round_double_error_small [OF xpos this]
  have err: "\<bar>R - x\<bar> \<le> 1 / 2 ^ 34" by (simp only: R_def)
  have "D * \<bar>R - x\<bar> \<le> 1000 * (1 / 2 ^ 34)"
    using err d1000 dpos by (intro mult_mono) simp_all
  then have "\<bar>D * (R - x)\<bar> \<le> 1000 / 2 ^ 34"
    using dpos by (simp add: abs_mult)
  then have e2: "D * (R - x) \<le> 1000 / 2 ^ 34" and e0: "- (D * (R - x)) \<le> 1000 / 2 ^ 34"
    by linarith+
  have "D * (x - R) = - (D * (R - x))"
    by (simp add: right_diff_distrib)
  with e0 have e1: "D * (x - R) \<le> 1000 / 2 ^ 34"
    by (simp only: )
  have "D * (R - of_nat m) = D * (x - of_nat m) - D * (x - R)"
    by (simp add: right_diff_distrib)
  with lo e1 have "0 < D * (R - of_nat m)" by simp
  then have Rm: "of_nat m \<le> R" using dpos by (simp add: zero_less_mult_iff)
  have "D * (R - of_nat m) = D * (x - of_nat m) + D * (R - x)"
    by (simp add: right_diff_distrib)
  with hi e2 have "D * (R - of_nat m) < D * 1" by simp
  then have Rm1: "R < of_nat m + 1" using dpos by (simp only: mult_less_cancel_left_pos)
  from Rm Rm1 have "double_to_size_t R = m" by (rule floor_between)
  then show ?thesis by (simp only: R_def x_def)
qed

lemma quantile_index:
  fixes n M num den :: nat
  assumes M: "den * M + 8 = num * 2 ^ 53"
    and n: "0 < n" "n \<le> 1000000"
    and num: "16 \<le> num" "num < den" "den \<le> 1000" "3 dvd num" "coprime 3 den"
  shows "double_to_size_t (round_double (of_nat n * (of_nat M / 2 ^ 53))) = num * n div den"
proof (cases "num * n mod den = 0")
  case True
  then have "num * n = den * (num * n div den)" by auto
  from quantile_index_exact [OF M n num(1,2,4,5) this]
  show ?thesis by (simp add: double_to_size_t_def)
next
  case False
  have "num * n = den * (num * n div den) + num * n mod den" by simp
  moreover have "num * n mod den < den" using num(1,2) by simp
  ultimately show ?thesis
    using False by (intro quantile_index_inexact [OF M n num(2,3)]) simp_all
qed

section \<open>The latency report\<close>

lemma min_element_Min: "xs \<noteq> [] \<Longrightarrow> min_element xs = Min (set xs)"
proof (cases xs)
  case (Cons a list)
  show ?thesis
    unfolding Cons min_element_def by (simp only: list.sel Min.set_eq_fold)
qed simp

lemma max_element_Max: "xs \<noteq> [] \<Longrightarrow> max_element xs = Max (set xs)"
proof (cases xs)
  case (Cons a list)
  show ?thesis
    unfolding Cons max_element_def by (simp only: list.sel Max.set_eq_fold)
qed simp

lemma double_of_nat_exact: "n < 2 ^ 53 \<Longrightarrow> double_of_nat n = of_nat n"
  by (simp add: double_of_nat_def round_double_of_nat)

lemma accumulate_exact:
  assumes "a + sum_list (map unat xs) < 2 ^ 53"
  shows "accumulate xs (of_nat a) = of_nat (a + sum_list (map unat xs))"
  using assms
proof (induction xs arbitrary: a)
  case Nil
  show ?case by (simp add: accumulate_def)
next
  case (Cons x xs)
  from Cons.prems have x: "unat x < 2 ^ 53" and ax: "a + unat x < 2 ^ 53"
    and rest: "(a + unat x) + sum_list (map unat xs) < 2 ^ 53"
    by simp_all
  have "double_add (of_nat a) (double_of_uint64 x) = round_double (of_nat a + of_nat (unat x))"
    by (simp only: double_add_def double_of_uint64_def round_double_of_nat [OF x])
  also have "\<dots> = round_double (of_nat (a + unat x))"
    by (simp only: of_nat_add)
  also have "\<dots> = of_nat (a + unat x)"
    by (rule round_double_of_nat [OF ax])
  finally have step: "double_add (of_nat a) (double_of_uint64 x) = of_nat (a + unat x)" .
  have "accumulate (x # xs) (of_nat a) = accumulate xs (of_nat (a + unat x))"
    by (simp only: accumulate_def fold_simps step)
  also have "\<dots> = of_nat ((a + unat x) + sum_list (map unat xs))"
    by (rule Cons.IH [OF rest])
  finally show ?case by (simp add: add.assoc)
qed

lemma double_literal_0_99: "round_double (99 / 100) = of_nat 8917127262193582 / 2 ^ 53"
proof -
  have "round_double (99 / 100) = 8917127262193582 / 2 ^ 53" by code_simp
  then show ?thesis by simp
qed

lemma double_literal_0_999: "round_double (999 / 1000) = of_nat 8998192055486251 / 2 ^ 53"
proof -
  have "round_double (999 / 1000) = 8998192055486251 / 2 ^ 53" by code_simp
  then show ?thesis by simp
qed

lemma coprime_3_100: "coprime (3::nat) 100"
  by code_simp

lemma coprime_3_1000: "coprime (3::nat) 1000"
  by code_simp

lemma p99_index:
  assumes "0 < n" and "n \<le> 1000000"
  shows "double_to_size_t (double_mul (double_of_nat n) (round_double (99 / 100))) = 99 * n div 100"
proof -
  have "n < 2 ^ 53" using assms(2) by simp
  then have "double_mul (double_of_nat n) (round_double (99 / 100))
               = round_double (of_nat n * (of_nat 8917127262193582 / 2 ^ 53))"
    by (simp only: double_mul_def double_of_nat_exact double_literal_0_99)
  moreover have "double_to_size_t (round_double (of_nat n * (of_nat 8917127262193582 / 2 ^ 53)))
                   = 99 * n div 100"
  proof (rule quantile_index [OF _ assms _ _ _ _ coprime_3_100])
    show "100 * 8917127262193582 + 8 = 99 * (2::nat) ^ 53" by simp
    show "3 dvd (99::nat)" by simp
  qed simp_all
  ultimately show ?thesis by (simp only: )
qed

lemma p999_index:
  assumes "0 < n" and "n \<le> 1000000"
  shows "double_to_size_t (double_mul (double_of_nat n) (round_double (999 / 1000))) = 999 * n div 1000"
proof -
  have "n < 2 ^ 53" using assms(2) by simp
  then have "double_mul (double_of_nat n) (round_double (999 / 1000))
               = round_double (of_nat n * (of_nat 8998192055486251 / 2 ^ 53))"
    by (simp only: double_mul_def double_of_nat_exact double_literal_0_999)
  moreover have "double_to_size_t (round_double (of_nat n * (of_nat 8998192055486251 / 2 ^ 53)))
                   = 999 * n div 1000"
  proof (rule quantile_index [OF _ assms _ _ _ _ coprime_3_1000])
    show "1000 * 8998192055486251 + 8 = 999 * (2::nat) ^ 53" by simp
    show "3 dvd (999::nat)" by simp
  qed simp_all
  ultimately show ?thesis by (simp only: )
qed

lemma quantile_rank_div: "quantile_rank num den n = num * n div den"
proof -
  have "rat_of_nat num / rat_of_nat den * rat_of_nat n = rat_of_nat (num * n) / rat_of_nat den"
    by simp
  then have "\<lfloor>rat_of_nat num / rat_of_nat den * rat_of_nat n\<rfloor> = int (num * n div den)"
    by (simp only: floor_divide_of_nat_eq)
  then show ?thesis
    by (simp only: quantile_rank_def nat_int)
qed

lemma analyzeLatencies_in_range:
  assumes len: "length timestampArr = MAX_SAMPLES" and pos: "0 < count"
    and le: "unat count \<le> MAX_SAMPLES"
  shows "analyzeLatencies timestampArr count =
     Inr (Statistics
       \<lparr> stat_count = unat count,
         stat_min = Min (set (take (unat count) timestampArr)),
         stat_median = sort (take (unat count) timestampArr) ! quantile_rank 1 2 (unat count),
         stat_avg = double_div (accumulate (take (unat count) timestampArr) 0)
                      (double_of_nat (unat count)),
         stat_p99 = sort (take (unat count) timestampArr) ! quantile_rank 99 100 (unat count),
         stat_p999 = sort (take (unat count) timestampArr) ! quantile_rank 999 1000 (unat count),
         stat_max = Max (set (take (unat count) timestampArr)) \<rparr>)"
proof -
  define n where "n = unat count"
  define xs where "xs = take n timestampArr"
  have n0: "0 < n" using pos by (simp add: n_def unat_gt_0)
  have nle: "n \<le> 1000000" using le by (simp add: n_def MAX_SAMPLES_def)
  have lxs: "length xs = n" using le len by (simp add: xs_def n_def)
  then have ne: "xs \<noteq> []" using n0 by auto
  have c0: "count \<noteq> 0" using pos by simp
  have guard: "\<not> MAX_SAMPLES < n" using le by (simp add: n_def)
  show ?thesis
    unfolding analyzeLatencies_def Let_def n_def [symmetric] xs_def [symmetric]
    by (simp only: c0 guard if_False lxs length_sort min_element_Min [OF ne]
        max_element_Max [OF ne] p99_index [OF n0 nle] p999_index [OF n0 nle]
        quantile_rank_div mult_1 )
qed

lemma example_min: "min_element [1, 2, 3, 4, 5 :: 64 word] = 1" by (simp add: min_element_def)
lemma example_max: "max_element [1, 2, 3, 4, 5 :: 64 word] = 5" by (simp add: max_element_def)
lemma example_sort: "sort [1, 2, 3, 4, 5 :: 64 word] = [1, 2, 3, 4, 5]" by simp
lemma example_avg: "double_div (accumulate [1, 2, 3, 4, 5] 0) (double_of_nat 5) = 3" by code_simp
lemma example_p99_index: "double_to_size_t (double_mul (double_of_nat 5) (round_double (99 / 100))) = 4" by code_simp
lemma example_p999_index: "double_to_size_t (double_mul (double_of_nat 5) (round_double (999 / 1000))) = 4" by code_simp

lemma analyzeLatencies_example:
  "analyzeLatencies ([1, 2, 3, 4, 5] @ rest) 5 =
     Inr (Statistics \<lparr> stat_count = 5, stat_min = 1, stat_median = 3, stat_avg = 3,
            stat_p99 = 5, stat_p999 = 5, stat_max = 5 \<rparr>)"
proof -
  have t: "take (unat (5 :: 64 word)) ([1, 2, 3, 4, 5] @ rest) = [1, 2, 3, 4, 5]"
    by simp
  have l: "length [1, 2, 3, 4, 5 :: 64 word] = 5"
    by simp
  have "analyzeLatencies ([1, 2, 3, 4, 5] @ rest) 5 =
     (if (5 :: 64 word) = 0 then Inr NoData
      else if MAX_SAMPLES < unat (5 :: 64 word) then Inl ReadPastEnd
      else Inr (Statistics \<lparr> stat_count = 5, stat_min = 1,
                  stat_median = [1, 2, 3, 4, 5] ! (5 div 2), stat_avg = 3,
                  stat_p99 = [1, 2, 3, 4, 5] ! 4, stat_p999 = [1, 2, 3, 4, 5] ! 4,
                  stat_max = 5 \<rparr>))"
    by (simp only: analyzeLatencies_def Let_def t length_sort l example_min example_max example_sort
        example_avg example_p99_index example_p999_index)
  then show ?thesis
    by (simp add: MAX_SAMPLES_def)
qed

lemma mean_exact_sum:
  assumes "sum_list (map unat xs) < 2 ^ 53" and "length xs < 2 ^ 53"
  shows "double_div (accumulate xs 0) (double_of_nat (length xs))
           = round_double (rat_of_nat (sum_list (map unat xs)) / rat_of_nat (length xs))"
proof -
  have "accumulate xs (of_nat 0) = of_nat (0 + sum_list (map unat xs))"
    using assms(1) by (intro accumulate_exact) simp
  then have "accumulate xs 0 = of_nat (sum_list (map unat xs))"
    by simp
  then show ?thesis
    by (simp only: double_div_def double_of_nat_exact [OF assms(2)])
qed

lemma round_double_25: "round_double 25 = 25"
  by code_simp

text \<open>
  C8 as stated does not hold for every \<open>count > 0\<close>: the array has \<open>MAX_SAMPLES\<close> = 1000000
  elements, and with \<open>count = 1000001\<close> the copy of the first \<open>count\<close> samples reads past
  its end. There is no report over a prefix of the ring then.
\<close>

theorem analyzeLatencies_past_end:
  "length (timestamps_RDTSC initial_LatencyState) = MAX_SAMPLES
   \<and> (0 :: 64 word) < 1000001
   \<and> analyzeLatencies (timestamps_RDTSC initial_LatencyState) 1000001 = Inl ReadPastEnd"
  by (simp add: analyzeLatencies_def initial_LatencyState_def MAX_SAMPLES_def)

text \<open>
  C8, amended. For every \<open>count\<close> from 1 up to the capacity of the ring, the report is
  computed over the first \<open>count\<close> samples: their number, their minimum and maximum, and
  the elements of the ascending sorted copy at the ranks \<open>floor(quantile \<times> count)\<close> for the
  quantiles 1/2, 99/100 and 999/1000, which all lie inside the copy (the ranks the code
  computes in double precision are exactly these). The average is the sum accumulated in
  double precision divided by \<open>count\<close>; whenever the sum of the samples is below \<open>2 ^ 53\<close>
  it is the arithmetic mean rounded to the nearest double. For \<open>count = 0\<close> the report is
  the line saying that there is no data, whatever the array holds. Over the samples 1, 2,
  3, 4, 5 the report is minimum 1, maximum 5, median 3, average 3, and 5 for both high
  percentiles.
\<close>

theorem analyzeLatencies_statistics:
  "(length timestampArr = MAX_SAMPLES \<and> 0 < count \<and> unat count \<le> MAX_SAMPLES \<longrightarrow>
      (\<exists>r. analyzeLatencies timestampArr count = Inr (Statistics r)
         \<and> stat_count r = unat count
         \<and> stat_min r = Min (set (take (unat count) timestampArr))
         \<and> stat_max r = Max (set (take (unat count) timestampArr))
         \<and> stat_median r = sort (take (unat count) timestampArr) ! quantile_rank 1 2 (unat count)
         \<and> stat_p99 r = sort (take (unat count) timestampArr) ! quantile_rank 99 100 (unat count)
         \<and> stat_p999 r = sort (take (unat count) timestampArr) ! quantile_rank 999 1000 (unat count)
         \<and> quantile_rank 1 2 (unat count) < unat count
         \<and> quantile_rank 99 100 (unat count) < unat count
         \<and> quantile_rank 999 1000 (unat count) < unat count
         \<and> (sum_list (map unat (take (unat count) timestampArr)) < 2 ^ 53 \<longrightarrow>
              stat_avg r = round_double
                (rat_of_nat (sum_list (map unat (take (unat count) timestampArr)))
                   / rat_of_nat (unat count)))))
   \<and> analyzeLatencies timestampArr 0 = Inr NoData
   \<and> (length rest = MAX_SAMPLES - 5 \<longrightarrow>
        analyzeLatencies ([1, 2, 3, 4, 5] @ rest) 5
          = Inr (Statistics \<lparr> stat_count = 5, stat_min = 1, stat_median = 3, stat_avg = 3,
                   stat_p99 = 5, stat_p999 = 5, stat_max = 5 \<rparr>))"
proof (intro conjI impI)
  assume h: "length timestampArr = MAX_SAMPLES \<and> 0 < count \<and> unat count \<le> MAX_SAMPLES"
  define n where "n = unat count"
  define xs where "xs = take n timestampArr"
  from h have len: "length timestampArr = MAX_SAMPLES" and pos: "0 < count"
    and le: "unat count \<le> MAX_SAMPLES" by simp_all
  have n0: "0 < n" using pos by (simp add: n_def unat_gt_0)
  have lxs: "length xs = n" using le len by (simp add: xs_def n_def)
  have n53: "length xs < 2 ^ 53" using le by (simp add: lxs n_def MAX_SAMPLES_def)
  have ranks: "quantile_rank 1 2 n < n" "quantile_rank 99 100 n < n" "quantile_rank 999 1000 n < n"
    using n0 by (simp_all add: quantile_rank_div)
  have avg: "sum_list (map unat xs) < 2 ^ 53 \<longrightarrow>
      double_div (accumulate xs 0) (double_of_nat n)
        = round_double (rat_of_nat (sum_list (map unat xs)) / rat_of_nat n)"
    using mean_exact_sum [of xs, OF _ n53] by (simp only: lxs) blast
  show "\<exists>r. analyzeLatencies timestampArr count = Inr (Statistics r)
         \<and> stat_count r = unat count
         \<and> stat_min r = Min (set (take (unat count) timestampArr))
         \<and> stat_max r = Max (set (take (unat count) timestampArr))
         \<and> stat_median r = sort (take (unat count) timestampArr) ! quantile_rank 1 2 (unat count)
         \<and> stat_p99 r = sort (take (unat count) timestampArr) ! quantile_rank 99 100 (unat count)
         \<and> stat_p999 r = sort (take (unat count) timestampArr) ! quantile_rank 999 1000 (unat count)
         \<and> quantile_rank 1 2 (unat count) < unat count
         \<and> quantile_rank 99 100 (unat count) < unat count
         \<and> quantile_rank 999 1000 (unat count) < unat count
         \<and> (sum_list (map unat (take (unat count) timestampArr)) < 2 ^ 53 \<longrightarrow>
              stat_avg r = round_double
                (rat_of_nat (sum_list (map unat (take (unat count) timestampArr)))
                   / rat_of_nat (unat count)))"
    unfolding analyzeLatencies_in_range [OF len pos le] n_def [symmetric] xs_def [symmetric]
    using ranks avg by simp
next
  show "analyzeLatencies timestampArr 0 = Inr NoData"
    by (simp add: analyzeLatencies_def)
next
  show "analyzeLatencies ([1, 2, 3, 4, 5] @ rest) 5
          = Inr (Statistics \<lparr> stat_count = 5, stat_min = 1, stat_median = 3, stat_avg = 3,
                   stat_p99 = 5, stat_p999 = 5, stat_max = 5 \<rparr>)"
    by (rule analyzeLatencies_example)
qed

theorem analyzeLatencies_statistics_witness:
  "length ([30, 10, 20, 40] @ replicate (MAX_SAMPLES - 4) (0 :: 64 word)) = MAX_SAMPLES
   \<and> (0 :: 64 word) < 4
   \<and> unat (4 :: 64 word) \<le> MAX_SAMPLES
   \<and> sum_list (map unat [30, 10, 20, 40 :: 64 word]) < 2 ^ 53
   \<and> (\<exists>r. analyzeLatencies ([30, 10, 20, 40] @ replicate (MAX_SAMPLES - 4) 0) 4
              = Inr (Statistics r)
          \<and> stat_count r = 4 \<and> stat_min r = 10 \<and> stat_max r = 40 \<and> stat_median r = 30
          \<and> stat_p99 r = 40 \<and> stat_p999 r = 40 \<and> stat_avg r = 25)"
proof -
  let ?arr = "[30, 10, 20, 40] @ replicate (MAX_SAMPLES - 4) (0 :: 64 word)"
  have h: "length ?arr = MAX_SAMPLES \<and> (0 :: 64 word) < 4 \<and> unat (4 :: 64 word) \<le> MAX_SAMPLES"
    by (simp add: MAX_SAMPLES_def)
  have t: "take (unat (4 :: 64 word)) ?arr = [30, 10, 20, 40]"
    by simp
  have s: "sum_list (map unat [30, 10, 20, 40 :: 64 word]) < 2 ^ 53"
    by simp
  from analyzeLatencies_statistics [of ?arr 4, THEN conjunct1, THEN mp, OF h]
  obtain r where r: "analyzeLatencies ?arr 4 = Inr (Statistics r)"
    and "stat_count r = unat (4 :: 64 word)"
    and "stat_min r = Min (set [30, 10, 20, 40])"
    and "stat_max r = Max (set [30, 10, 20, 40])"
    and "stat_median r = sort [30, 10, 20, 40] ! quantile_rank 1 2 (unat (4 :: 64 word))"
    and "stat_p99 r = sort [30, 10, 20, 40] ! quantile_rank 99 100 (unat (4 :: 64 word))"
    and "stat_p999 r = sort [30, 10, 20, 40] ! quantile_rank 999 1000 (unat (4 :: 64 word))"
    and "sum_list (map unat [30, 10, 20, 40 :: 64 word]) < 2 ^ 53 \<longrightarrow>
           stat_avg r = round_double (rat_of_nat (sum_list (map unat [30, 10, 20, 40 :: 64 word]))
                          / rat_of_nat (unat (4 :: 64 word)))"
    unfolding t by blast
  then have "stat_count r = 4 \<and> stat_min r = 10 \<and> stat_max r = 40 \<and> stat_median r = 30
          \<and> stat_p99 r = 40 \<and> stat_p999 r = 40 \<and> stat_avg r = 25"
    by (simp add: quantile_rank_div round_double_25)
  with r h s show ?thesis by blast
qed

end
